theory Spec2Isabelle
  imports Complex_Main "HOL-Library.Product_Lexorder"
begin

section \<open>Process entity (models/process.py)\<close>

text \<open>
  A Python \<^verbatim>\<open>Process\<close> object is a record of its attributes.  Python integers are
  unbounded, so every numeric attribute is an \<^typ>\<open>int\<close>; an attribute that starts
  as \<^verbatim>\<open>None\<close> is an option.
\<close>

datatype pstate = NEW | READY | RUNNING | WAITING | TERMINATED

record process =
  pid :: int
  name :: string
  arrival_time :: int
  burst_time :: int
  priority :: int
  remaining_time :: int
  start_time :: "int option"
  finish_time :: "int option"
  waiting_time :: int
  response_time :: "int option"
  state :: pstate
  execution_history :: "(int \<times> int) list"

text \<open>\<^verbatim>\<open>Process.__init__(pid, name, arrival_time, burst_time, priority=0)\<close>\<close>

definition Process :: "int \<Rightarrow> string \<Rightarrow> int \<Rightarrow> int \<Rightarrow> int \<Rightarrow> process" where
  "Process pid' name' arrival_time' burst_time' priority' =
     \<lparr> pid = pid', name = name', arrival_time = arrival_time',
       burst_time = burst_time', priority = priority',
       remaining_time = burst_time', start_time = None, finish_time = None,
       waiting_time = 0, response_time = None, state = NEW,
       execution_history = [] \<rparr>"

text \<open>
  \<^verbatim>\<open>Process.execute(current_time, time_quantum)\<close> mutates the object and returns the
  time actually executed; the model returns that time together with the new object.
  The statements are taken in the order of the source.
\<close>

definition execute :: "process \<Rightarrow> int \<Rightarrow> int \<Rightarrow> int \<times> process" where
  "execute p current_time' time_quantum' =
     (let p1 = (if state p = NEW then p\<lparr>state := READY\<rparr> else p);
          p2 = (if state p1 \<noteq> RUNNING then p1\<lparr>state := RUNNING\<rparr> else p1);
          p3 = (if start_time p2 = None
                then p2\<lparr>start_time := Some current_time',
                        response_time := Some (current_time' - arrival_time p2)\<rparr>
                else p2);
          actual_execution = min time_quantum' (remaining_time p3);
          p4 = p3\<lparr>remaining_time := remaining_time p3 - actual_execution\<rparr>;
          p5 = p4\<lparr>execution_history :=
                     execution_history p4 @ [(current_time', current_time' + actual_execution)]\<rparr>;
          p6 = (if remaining_time p5 \<le> 0
                then p5\<lparr>state := TERMINATED,
                        finish_time := Some (current_time' + actual_execution)\<rparr>
                else p5)
      in (actual_execution, p6))"

text \<open>\<^verbatim>\<open>Process.wait(time)\<close>: the guard is on the state READY or WAITING.\<close>

definition wait :: "process \<Rightarrow> int \<Rightarrow> process" where
  "wait p time' =
     (if state p = READY \<or> state p = WAITING
      then p\<lparr>waiting_time := waiting_time p + time'\<rparr> else p)"

definition get_turnaround_time :: "process \<Rightarrow> int option" where
  "get_turnaround_time p =
     (case finish_time p of Some f \<Rightarrow> Some (f - arrival_time p) | None \<Rightarrow> None)"

definition get_waiting_time :: "process \<Rightarrow> int" where
  "get_waiting_time p = waiting_time p"

definition get_response_time :: "process \<Rightarrow> int option" where
  "get_response_time p = response_time p"

definition is_arrived :: "process \<Rightarrow> int \<Rightarrow> bool" where
  "is_arrived p current_time' \<longleftrightarrow> current_time' \<ge> arrival_time p"

definition is_terminated :: "process \<Rightarrow> bool" where
  "is_terminated p \<longleftrightarrow> state p = TERMINATED"

text \<open>\<^verbatim>\<open>Process.reset()\<close>\<close>

definition reset_process :: "process \<Rightarrow> process" where
  "reset_process p =
     p\<lparr>remaining_time := burst_time p, start_time := None, finish_time := None,
       waiting_time := 0, response_time := None, state := NEW,
       execution_history := []\<rparr>"


section \<open>Python helpers\<close>

datatype error =
  AttributeError | IndexError | KeyError | ValueError | TypeError | ZeroDivisionError

text \<open>
  \<^verbatim>\<open>min(xs, key=f)\<close> keeps the first element whose key is least, \<^verbatim>\<open>max(xs, key=f)\<close>
  the first whose key is greatest; both raise ValueError on an empty sequence.
  Key tuples are compared lexicographically, as pairs are here.
\<close>

fun py_min :: "('a \<Rightarrow> 'k::linorder) \<Rightarrow> 'a list \<Rightarrow> error + 'a" where
  "py_min key [] = Inl ValueError"
| "py_min key (x # xs) = Inr (foldl (\<lambda>best y. if key y < key best then y else best) x xs)"

fun py_max :: "('a \<Rightarrow> 'k::linorder) \<Rightarrow> 'a list \<Rightarrow> error + 'a" where
  "py_max key [] = Inl ValueError"
| "py_max key (x # xs) = Inr (foldl (\<lambda>best y. if key best < key y then y else best) x xs)"

text \<open>\<^verbatim>\<open>min(xs, default=None)\<close> on a list of integers.\<close>

fun min_default :: "int list \<Rightarrow> int option" where
  "min_default [] = None"
| "min_default (x # xs) = Some (foldl min x xs)"

text \<open>
  The position that \<^verbatim>\<open>xs[i]\<close> reads: \<open>i\<close> itself, or \<open>len(xs) + i\<close> for a negative \<open>i\<close>;
  IndexError when that position does not exist.
\<close>

definition py_index :: "'a list \<Rightarrow> int \<Rightarrow> error + nat" where
  "py_index xs i =
     (if 0 \<le> i \<and> i < int (length xs) then Inr (nat i)
      else if i < 0 \<and> 0 \<le> int (length xs) + i then Inr (nat (int (length xs) + i))
      else Inl IndexError)"

section \<open>Scheduler objects (models/scheduler.py and algorithms/)\<close>

text \<open>
  The six scheduler classes share the attributes of the abstract base class; a single
  record holds them, a tag for the class, and the attributes that the subclasses add
  (\<open>preemptive\<close> for the priority scheduler, \<open>ready_queue\<close> for round robin,
  \<open>queue_count\<close> and \<open>queues\<close> for the multilevel queue).  The display names of schedulers
  and of tiers play no part in scheduling and are left out.

  Python compares \<^verbatim>\<open>Process\<close> objects by identity.  The objects of a run are the
  entries of \<open>processes\<close>, taken to be pairwise distinct objects; a reference to an
  object is its position in that list.  \<open>current_process\<close>, \<open>completed_processes\<close>
  and all queues hold such references.
\<close>

datatype policy =
  FCFSScheduler | SJFScheduler | SRTFScheduler | RoundRobinScheduler
| PriorityScheduler | MultilevelQueueScheduler

datatype algorithm = RR | FCFS

record tier =
  algorithm :: algorithm
  time_quantum :: "int option"
  queue :: "nat list"

datatype subject = Pid int | IDLE | CS

type_synonym log_entry = "subject \<times> int \<times> int"

record scheduler =
  policy :: policy
  processes :: "process list"
  current_time :: int
  time_slice :: int
  context_switch_overhead :: int
  current_process :: "nat option"
  completed_processes :: "nat list"
  execution_log :: "log_entry list"
  preemptive :: bool
  ready_queue :: "nat list"
  queue_count :: int
  queues :: "tier list"

text \<open>\<^verbatim>\<open>Scheduler.__init__\<close>, with the class tag as argument.\<close>

definition Scheduler :: "policy \<Rightarrow> scheduler" where
  "Scheduler pol =
     \<lparr> policy = pol, processes = [], current_time = 0, time_slice = 1,
       context_switch_overhead = 0, current_process = None,
       completed_processes = [], execution_log = [],
       preemptive = False, ready_queue = [], queue_count = 0, queues = [] \<rparr>"

definition FCFSScheduler_init :: scheduler where
  "FCFSScheduler_init = Scheduler FCFSScheduler"

definition SJFScheduler_init :: scheduler where
  "SJFScheduler_init = Scheduler SJFScheduler"

definition SRTFScheduler_init :: scheduler where
  "SRTFScheduler_init = Scheduler SRTFScheduler"

definition PriorityScheduler_init :: "bool \<Rightarrow> scheduler" where
  "PriorityScheduler_init preemptive' = (Scheduler PriorityScheduler)\<lparr>preemptive := preemptive'\<rparr>"

definition RoundRobinScheduler_init :: "int \<Rightarrow> scheduler" where
  "RoundRobinScheduler_init time_quantum' =
     (Scheduler RoundRobinScheduler)\<lparr>time_slice := time_quantum', ready_queue := []\<rparr>"

text \<open>
  \<^verbatim>\<open>MultilevelQueueScheduler.__init__(queue_count)\<close>: one round-robin tier of quantum 2,
  then \<^verbatim>\<open>range(1, queue_count - 1)\<close> round-robin tiers of quantum 4, then the FCFS
  tier, whose dictionary has no \<^verbatim>\<open>time_quantum\<close> key.
\<close>

definition MultilevelQueueScheduler_init :: "int \<Rightarrow> scheduler" where
  "MultilevelQueueScheduler_init queue_count' =
     (Scheduler MultilevelQueueScheduler)
       \<lparr>queue_count := queue_count',
        queues := [\<lparr>algorithm = RR, time_quantum = Some 2, queue = []\<rparr>]
                  @ replicate (nat (queue_count' - 2))
                      \<lparr>algorithm = RR, time_quantum = Some 4, queue = []\<rparr>
                  @ [\<lparr>algorithm = FCFS, time_quantum = None, queue = []\<rparr>]\<rparr>"

definition add_process :: "scheduler \<Rightarrow> process \<Rightarrow> scheduler" where
  "add_process s p = s\<lparr>processes := processes s @ [p]\<rparr>"

definition add_processes :: "scheduler \<Rightarrow> process list \<Rightarrow> scheduler" where
  "add_processes s ps = s\<lparr>processes := processes s @ ps\<rparr>"

definition set_context_switch_overhead :: "scheduler \<Rightarrow> int \<Rightarrow> scheduler" where
  "set_context_switch_overhead s overhead = s\<lparr>context_switch_overhead := overhead\<rparr>"

text \<open>
  \<^verbatim>\<open>reset\<close>: the base class resets the clock, the current process, the completed list,
  the log and every process; round robin also empties its queue, the multilevel queue
  empties the queue of every tier.  No class touches \<open>time_slice\<close>.
\<close>

definition reset :: "scheduler \<Rightarrow> scheduler" where
  "reset s =
     (let s1 = s\<lparr>current_time := 0, current_process := None, completed_processes := [],
                 execution_log := [], processes := map reset_process (processes s)\<rparr>
      in case policy s of
           RoundRobinScheduler \<Rightarrow> s1\<lparr>ready_queue := []\<rparr>
         | MultilevelQueueScheduler \<Rightarrow> s1\<lparr>queues := map (\<lambda>q. q\<lparr>queue := []\<rparr>) (queues s1)\<rparr>
         | _ \<Rightarrow> s1)"

subsection \<open>Selection rules\<close>

text \<open>
  The test \<^verbatim>\<open>self.current_process in ready_processes and not
  self.current_process.is_terminated()\<close>, shared by four of the classes; it yields the
  current process when the test holds (\<^verbatim>\<open>None in ready_processes\<close> is false).
\<close>

definition current_still_ready :: "scheduler \<Rightarrow> nat list \<Rightarrow> nat option" where
  "current_still_ready s ready_processes =
     (case current_process s of
        None \<Rightarrow> None
      | Some c \<Rightarrow> if c \<in> set ready_processes \<and> \<not> is_terminated (processes s ! c)
                  then Some c else None)"

definition fcfs_get_next_process :: "scheduler \<Rightarrow> nat list \<Rightarrow> error + nat" where
  "fcfs_get_next_process s ready_processes =
     py_min (\<lambda>i. (arrival_time (processes s ! i), pid (processes s ! i))) ready_processes"

definition srtf_get_next_process :: "scheduler \<Rightarrow> nat list \<Rightarrow> error + nat" where
  "srtf_get_next_process s ready_processes =
     py_min (\<lambda>i. (remaining_time (processes s ! i), arrival_time (processes s ! i),
                  pid (processes s ! i))) ready_processes"

definition sjf_get_next_process :: "scheduler \<Rightarrow> nat list \<Rightarrow> error + nat" where
  "sjf_get_next_process s ready_processes =
     (case current_still_ready s ready_processes of
        Some c \<Rightarrow> Inr c
      | None \<Rightarrow>
          py_min (\<lambda>i. (remaining_time (processes s ! i), arrival_time (processes s ! i),
                       pid (processes s ! i))) ready_processes)"

definition priority_get_next_process :: "scheduler \<Rightarrow> nat list \<Rightarrow> error + nat" where
  "priority_get_next_process s ready_processes =
     (case (if \<not> preemptive s then current_still_ready s ready_processes else None) of
        Some c \<Rightarrow> Inr c
      | None \<Rightarrow>
          py_max (\<lambda>i. (priority (processes s ! i), - arrival_time (processes s ! i),
                       pid (processes s ! i))) ready_processes)"

subsection \<open>Round robin (algorithms/round\_robin.py)\<close>

text \<open>
  The first loop of \<^verbatim>\<open>get_next_process\<close>: \<open>current_pids\<close> is computed once, before the
  loop, while membership in the queue is tested against the queue as it grows.
\<close>

fun rr_enqueue :: "process list \<Rightarrow> int set \<Rightarrow> nat list \<Rightarrow> nat list \<Rightarrow> nat list" where
  "rr_enqueue ps current_pids q [] = q"
| "rr_enqueue ps current_pids q (i # ready) =
     rr_enqueue ps current_pids
       (if pid (ps ! i) \<notin> current_pids \<and> i \<notin> set q then q @ [i] else q) ready"

text \<open>
  The queue as it stands before the head is popped: new arrivals appended, the current
  process moved to the tail (\<^verbatim>\<open>remove\<close> deletes the first occurrence and its ValueError
  is swallowed), and the queue rebuilt from the sorted ready list if it is empty.
\<close>

definition rr_update_queue :: "scheduler \<Rightarrow> nat list \<Rightarrow> nat list" where
  "rr_update_queue s ready_processes =
     (let current_pids = (\<lambda>i. pid (processes s ! i)) ` set (ready_queue s);
          q1 = rr_enqueue (processes s) current_pids (ready_queue s) ready_processes;
          q2 = (case current_still_ready s ready_processes of
                  Some c \<Rightarrow> remove1 c q1 @ [c]
                | None \<Rightarrow> q1)
      in if q2 = [] \<and> ready_processes \<noteq> []
         then sort_key (\<lambda>i. (arrival_time (processes s ! i), pid (processes s ! i)))
                ready_processes
         else q2)"

definition rr_get_next_process :: "scheduler \<Rightarrow> nat list \<Rightarrow> nat option \<times> scheduler" where
  "rr_get_next_process s ready_processes =
     (case rr_update_queue s ready_processes of
        [] \<Rightarrow> (None, s\<lparr>ready_queue := []\<rparr>)
      | p # q \<Rightarrow> (Some p, s\<lparr>ready_queue := q\<rparr>))"

subsection \<open>Multilevel queue (algorithms/multilevel.py)\<close>

definition get_queue_for_process :: "scheduler \<Rightarrow> process \<Rightarrow> int" where
  "get_queue_for_process s p =
     min (max 0 (queue_count s - 1 - priority p)) (queue_count s - 1)"

definition tier_append :: "tier list \<Rightarrow> nat \<Rightarrow> nat \<Rightarrow> tier list" where
  "tier_append qs j i = qs[j := (qs ! j)\<lparr>queue := queue (qs ! j) @ [i]\<rparr>]"

text \<open>
  First loop: a ready process that is in no tier queue and is not the current process is
  appended to the queue of its tier; \<^verbatim>\<open>self.queues[queue_index]\<close> may raise IndexError.
\<close>

fun mlq_enqueue :: "scheduler \<Rightarrow> tier list \<Rightarrow> nat list \<Rightarrow> error + tier list" where
  "mlq_enqueue s qs [] = Inr qs"
| "mlq_enqueue s qs (i # ready) =
     (if \<not> list_ex (\<lambda>q. i \<in> set (queue q)) qs \<and> Some i \<noteq> current_process s
      then (case py_index qs (get_queue_for_process s (processes s ! i)) of
              Inl e \<Rightarrow> Inl e
            | Inr j \<Rightarrow> mlq_enqueue s (tier_append qs j i) ready)
      else mlq_enqueue s qs ready)"

text \<open>
  Second step: the current process, if still ready and assigned to a round-robin tier, is
  removed from every queue and appended to the queue of its own tier.
\<close>

definition mlq_requeue_current :: "scheduler \<Rightarrow> tier list \<Rightarrow> nat list \<Rightarrow> error + tier list" where
  "mlq_requeue_current s qs ready_processes =
     (case current_still_ready s ready_processes of
        None \<Rightarrow> Inr qs
      | Some c \<Rightarrow>
          (case py_index qs (get_queue_for_process s (processes s ! c)) of
             Inl e \<Rightarrow> Inl e
           | Inr j \<Rightarrow>
               if algorithm (qs ! j) = RR
               then Inr (tier_append (map (\<lambda>q. q\<lparr>queue := remove1 c (queue q)\<rparr>) qs) j c)
               else Inr qs))"

text \<open>
  Third step: the scan over the tiers.  The result is the process popped, the tiers after
  the pop, and the value assigned to \<open>time_slice\<close> if the branch assigns one: the
  round-robin branch does, the FCFS branch does not.
\<close>

fun mlq_select :: "tier list \<Rightarrow> error + (nat \<times> tier list \<times> int option) option" where
  "mlq_select [] = Inr None"
| "mlq_select (q # qs) =
     (case queue q of
        [] \<Rightarrow> (case mlq_select qs of
                 Inl e \<Rightarrow> Inl e
               | Inr None \<Rightarrow> Inr None
               | Inr (Some (p, qs', ts)) \<Rightarrow> Inr (Some (p, q # qs', ts)))
      | p # rest \<Rightarrow>
          (case algorithm q of
             FCFS \<Rightarrow> Inr (Some (p, q\<lparr>queue := rest\<rparr> # qs, None))
           | RR \<Rightarrow> (case time_quantum q of
                      None \<Rightarrow> Inl KeyError
                    | Some tq \<Rightarrow> Inr (Some (p, q\<lparr>queue := rest\<rparr> # qs, Some tq)))))"

definition mlq_get_next_process :: "scheduler \<Rightarrow> nat list \<Rightarrow> error + nat option \<times> scheduler" where
  "mlq_get_next_process s ready_processes =
     (case mlq_enqueue s (queues s) ready_processes of
        Inl e \<Rightarrow> Inl e
      | Inr qs1 \<Rightarrow>
     (case mlq_requeue_current s qs1 ready_processes of
        Inl e \<Rightarrow> Inl e
      | Inr qs2 \<Rightarrow>
     (case mlq_select qs2 of
        Inl e \<Rightarrow> Inl e
      | Inr (Some (p, qs3, ts)) \<Rightarrow>
          Inr (Some p, s\<lparr>queues := qs3,
                          time_slice := (case ts of None \<Rightarrow> time_slice s | Some tq \<Rightarrow> tq)\<rparr>)
      | Inr None \<Rightarrow>
          (if ready_processes \<noteq> []
           then (case py_min (\<lambda>i. (arrival_time (processes s ! i), pid (processes s ! i)))
                        ready_processes of
                   Inl e \<Rightarrow> Inl e
                 | Inr p \<Rightarrow> Inr (Some p, s\<lparr>queues := qs2\<rparr>))
           else Inr (None, s\<lparr>queues := qs2\<rparr>)))))"

subsection \<open>Dispatch on the class\<close>

definition get_next_process :: "scheduler \<Rightarrow> nat list \<Rightarrow> error + nat option \<times> scheduler" where
  "get_next_process s ready_processes =
     (case policy s of
        FCFSScheduler \<Rightarrow> map_sum id (\<lambda>p. (Some p, s)) (fcfs_get_next_process s ready_processes)
      | SJFScheduler \<Rightarrow> map_sum id (\<lambda>p. (Some p, s)) (sjf_get_next_process s ready_processes)
      | SRTFScheduler \<Rightarrow> map_sum id (\<lambda>p. (Some p, s)) (srtf_get_next_process s ready_processes)
      | PriorityScheduler \<Rightarrow>
          map_sum id (\<lambda>p. (Some p, s)) (priority_get_next_process s ready_processes)
      | RoundRobinScheduler \<Rightarrow> Inr (rr_get_next_process s ready_processes)
      | MultilevelQueueScheduler \<Rightarrow> mlq_get_next_process s ready_processes)"

section \<open>Simulation engine (Scheduler.run)\<close>

definition ready_processes_of :: "scheduler \<Rightarrow> nat list" where
  "ready_processes_of s =
     filter (\<lambda>i. is_arrived (processes s ! i) (current_time s)
                 \<and> \<not> is_terminated (processes s ! i))
       [0..<length (processes s)]"

text \<open>\<^verbatim>\<open>for p in ready_processes: if p != next_process: p.wait(d)\<close>\<close>

definition wait_others :: "nat list \<Rightarrow> nat \<Rightarrow> int \<Rightarrow> process list \<Rightarrow> process list" where
  "wait_others ready_processes next_process d ps =
     fold (\<lambda>i ps'. if i \<noteq> next_process then ps'[i := wait (ps' ! i) d] else ps')
       ready_processes ps"

text \<open>The context-switch block of the loop, for the selected process \<open>next_process\<close>.\<close>

definition context_switch :: "scheduler \<Rightarrow> nat list \<Rightarrow> nat \<Rightarrow> scheduler" where
  "context_switch s ready_processes next_process =
     (if context_switch_overhead s > 0 \<and> current_process s \<noteq> Some next_process
         \<and> current_process s \<noteq> None
      then s\<lparr>execution_log := execution_log s
                @ [(CS, current_time s, current_time s + context_switch_overhead s)],
             processes := wait_others ready_processes next_process
                            (context_switch_overhead s) (processes s),
             current_time := current_time s + context_switch_overhead s\<rparr>
      else s)"

text \<open>The rest of the loop body: dispatch, log, clock, waiting, completion.\<close>

definition dispatch :: "scheduler \<Rightarrow> nat list \<Rightarrow> nat \<Rightarrow> scheduler" where
  "dispatch s ready_processes next_process =
     (let s1 = s\<lparr>current_process := Some next_process\<rparr>;
          (execution_time, p') =
             execute (processes s1 ! next_process) (current_time s1) (time_slice s1);
          s2 = s1\<lparr>processes := (processes s1)[next_process := p']\<rparr>;
          s3 = s2\<lparr>execution_log := execution_log s2
                  @ [(Pid (pid p'), current_time s2, current_time s2 + execution_time)]\<rparr>;
          s4 = s3\<lparr>current_time := current_time s3 + execution_time\<rparr>;
          s5 = s4\<lparr>processes := wait_others ready_processes next_process execution_time
                                  (processes s4)\<rparr>
      in if is_terminated (processes s5 ! next_process)
         then s5\<lparr>completed_processes := completed_processes s5 @ [next_process],
                 current_process := None\<rparr>
         else s5)"

text \<open>
  One pass through the body of the \<^verbatim>\<open>while\<close> loop.  \<open>Inr None\<close> is \<^verbatim>\<open>break\<close>;
  a selection of \<^verbatim>\<open>None\<close> makes \<^verbatim>\<open>next_process.execute\<close> raise AttributeError.
\<close>

definition loop_body :: "scheduler \<Rightarrow> error + scheduler option" where
  "loop_body s =
     (let ready_processes = ready_processes_of s in
      if ready_processes = [] then
        (case min_default (map arrival_time
                 (filter (\<lambda>p. \<not> is_terminated p \<and> arrival_time p > current_time s)
                    (processes s))) of
           None \<Rightarrow> Inr None
         | Some next_arrival \<Rightarrow>
             Inr (Some ((if current_time s < next_arrival
                         then s\<lparr>execution_log := execution_log s
                                  @ [(IDLE, current_time s, next_arrival)]\<rparr>
                         else s)\<lparr>current_time := next_arrival\<rparr>)))
      else
        (case get_next_process s ready_processes of
           Inl e \<Rightarrow> Inl e
         | Inr (None, s1) \<Rightarrow> Inl AttributeError
         | Inr (Some next_process, s1) \<Rightarrow>
             Inr (Some (dispatch (context_switch s1 ready_processes next_process)
                          ready_processes next_process))))"

definition loop_cond :: "int option \<Rightarrow> scheduler \<Rightarrow> bool" where
  "loop_cond until_time s \<longleftrightarrow>
     length (completed_processes s) < length (processes s)
     \<and> (case until_time of None \<Rightarrow> True | Some u \<Rightarrow> current_time s < u)"

text \<open>
  The \<^verbatim>\<open>while\<close> loop need not terminate (a time slice of 0 never finishes a process),
  so it is run with fuel: \<open>None\<close> means that the fuel ran out before the loop exited.
\<close>

fun run_loop :: "nat \<Rightarrow> int option \<Rightarrow> scheduler \<Rightarrow> (error + scheduler) option" where
  "run_loop 0 until_time s = None"
| "run_loop (Suc n) until_time s =
     (if loop_cond until_time s
      then (case loop_body s of
              Inl e \<Rightarrow> Some (Inl e)
            | Inr None \<Rightarrow> Some (Inr s)
            | Inr (Some s') \<Rightarrow> run_loop n until_time s')
      else Some (Inr s))"

definition run :: "nat \<Rightarrow> int option \<Rightarrow> scheduler \<Rightarrow> (error + scheduler) option" where
  "run fuel until_time s = run_loop fuel until_time (reset s)"

text \<open>
  The state of the simulation after exactly \<open>k\<close> passes through the loop body, if the
  loop makes that many passes.
\<close>

fun iterations :: "nat \<Rightarrow> int option \<Rightarrow> scheduler \<Rightarrow> scheduler option" where
  "iterations 0 until_time s = Some s"
| "iterations (Suc k) until_time s =
     (if loop_cond until_time s
      then (case loop_body s of
              Inr (Some s') \<Rightarrow> iterations k until_time s'
            | _ \<Rightarrow> None)
      else None)"


section \<open>Metrics aggregator (utils/metrics.py)\<close>

text \<open>
  \<^verbatim>\<open>sum(end - start for start, end in p.execution_history)\<close>, the CPU time recorded
  for one process.
\<close>

definition execution_total :: "process \<Rightarrow> int" where
  "execution_total p = sum_list (map (\<lambda>(start, end'). end' - start) (execution_history p))"

record metrics =
  scheduler_name :: string
  avg_waiting_time :: real
  avg_turnaround_time :: real
  avg_response_time :: real
  throughput :: real
  cpu_utilization :: real

text \<open>\<^verbatim>\<open>sum\<close> over values of which some may be \<^verbatim>\<open>None\<close> raises TypeError.\<close>

fun sum_options :: "int option list \<Rightarrow> error + int" where
  "sum_options [] = Inr 0"
| "sum_options (None # xs) = Inl TypeError"
| "sum_options (Some x # xs) =
     (case sum_options xs of Inl e \<Rightarrow> Inl e | Inr t \<Rightarrow> Inr (x + t))"

text \<open>
  \<^verbatim>\<open>PerformanceMetrics.calculate_metrics\<close>.  Python's true division yields a float;
  the quotients of the second branch are taken in the reals, so their rounding is not
  modelled.  The first branch returns the integer 0 in every numeric field.
\<close>

definition calculate_metrics :: "process list \<Rightarrow> int \<Rightarrow> string \<Rightarrow> error + metrics" where
  "calculate_metrics completed total_time scheduler_name' =
     (if completed = [] then
        Inr \<lparr> scheduler_name = scheduler_name', avg_waiting_time = 0,
              avg_turnaround_time = 0, avg_response_time = 0, throughput = 0,
              cpu_utilization = 0 \<rparr>
      else
        (let waiting_times = map get_waiting_time completed;
             turnaround_times = map get_turnaround_time completed;
             response_times = map get_response_time completed;
             execution_times = sum_list (map execution_total completed);
             n = real (length completed)
         in case sum_options turnaround_times of
              Inl e \<Rightarrow> Inl e
            | Inr turnaround_sum \<Rightarrow>
           (case sum_options response_times of
              Inl e \<Rightarrow> Inl e
            | Inr response_sum \<Rightarrow>
                if total_time = 0 then Inl ZeroDivisionError
                else Inr \<lparr> scheduler_name = scheduler_name',
                           avg_waiting_time = real_of_int (sum_list waiting_times) / n,
                           avg_turnaround_time = real_of_int turnaround_sum / n,
                           avg_response_time = real_of_int response_sum / n,
                           throughput = n / real_of_int total_time,
                           cpu_utilization =
                             (if total_time > 0
                              then real_of_int execution_times / real_of_int total_time * 100
                              else 0) \<rparr>)))"

section \<open>Properties of a timeline\<close>

text \<open>
  A log is a contiguous timeline from \<open>t\<close> to \<open>t'\<close> when its first entry starts at
  \<open>t\<close>, no entry ends before it starts, every entry starts where the one before it
  ends, and the last entry ends at \<open>t'\<close>.
\<close>

fun contiguous :: "int \<Rightarrow> log_entry list \<Rightarrow> int \<Rightarrow> bool" where
  "contiguous t [] t' \<longleftrightarrow> t = t'"
| "contiguous t ((x, a, b) # es) t' \<longleftrightarrow> a = t \<and> a \<le> b \<and> contiguous b es t'"

text \<open>The half-open span of time that a log entry covers.\<close>

definition entry_span :: "log_entry \<Rightarrow> int set" where
  "entry_span e = {fst (snd e) ..< snd (snd e)}"

section \<open>Example workloads\<close>

text \<open>The scenario P1(arrival 0, burst 5), P2(arrival 1, burst 3), P3(arrival 2, burst 1).\<close>

definition example_workload :: "process list" where
  "example_workload =
     [Process 1 ''P1'' 0 5 0, Process 2 ''P2'' 1 3 0, Process 3 ''P3'' 2 1 0]"

definition fcfs_example :: scheduler where
  "fcfs_example = add_processes FCFSScheduler_init example_workload"

text \<open>The FCFS run of the scenario after its first pass through the loop.\<close>

definition fcfs_after_1 :: scheduler where
  "fcfs_after_1 =
     \<lparr>policy = FCFSScheduler,
      processes =
        [\<lparr>pid = 1, name = ''P1'', arrival_time = 0, burst_time = 5,
            priority = 0, remaining_time = 4, start_time = Some 0,
            finish_time = None, waiting_time = 0,
            response_time = Some 0, state = RUNNING,
            execution_history = [(0, 1)]\<rparr>,
         \<lparr>pid = 2, name = ''P2'', arrival_time = 1, burst_time = 3,
            priority = 0, remaining_time = 3, start_time = None,
            finish_time = None, waiting_time = 0,
            response_time = None, state = NEW,
            execution_history = []\<rparr>,
         \<lparr>pid = 3, name = ''P3'', arrival_time = 2, burst_time = 1,
            priority = 0, remaining_time = 1, start_time = None,
            finish_time = None, waiting_time = 0,
            response_time = None, state = NEW,
            execution_history = []\<rparr>],
      current_time = 1, time_slice = 1, context_switch_overhead = 0,
      current_process = Some 0, completed_processes = [],
      execution_log = [(Pid 1, 0, 1)], preemptive = False,
      ready_queue = [], queue_count = 0, queues = []\<rparr>"

text \<open>The FCFS run of the scenario when the loop exits.\<close>

definition fcfs_final :: scheduler where
  "fcfs_final =
     \<lparr>policy = FCFSScheduler,
      processes =
        [\<lparr>pid = 1, name = ''P1'', arrival_time = 0, burst_time = 5,
            priority = 0, remaining_time = 0, start_time = Some 0,
            finish_time = Some 5, waiting_time = 0,
            response_time = Some 0, state = TERMINATED,
            execution_history = [(0, 1), (1, 2), (2, 3), (3, 4), (4, 5)]\<rparr>,
         \<lparr>pid = 2, name = ''P2'', arrival_time = 1, burst_time = 3,
            priority = 0, remaining_time = 0, start_time = Some 5,
            finish_time = Some 8, waiting_time = 0,
            response_time = Some 4, state = TERMINATED,
            execution_history = [(5, 6), (6, 7), (7, 8)]\<rparr>,
         \<lparr>pid = 3, name = ''P3'', arrival_time = 2, burst_time = 1,
            priority = 0, remaining_time = 0, start_time = Some 8,
            finish_time = Some 9, waiting_time = 0,
            response_time = Some 6, state = TERMINATED,
            execution_history = [(8, 9)]\<rparr>],
      current_time = 9, time_slice = 1, context_switch_overhead = 0,
      current_process = None, completed_processes = [0, 1, 2],
      execution_log =
        [(Pid 1, 0, 1), (Pid 1, 1, 2), (Pid 1, 2, 3), (Pid 1, 3, 4),
         (Pid 1, 4, 5), (Pid 2, 5, 6), (Pid 2, 6, 7), (Pid 2, 7, 8),
         (Pid 3, 8, 9)],
      preemptive = False, ready_queue = [], queue_count = 0, queues = []\<rparr>"

text \<open>Two processes of priority 0, which a three-tier multilevel queue puts in its FCFS tier.\<close>

definition batch_example :: scheduler where
  "batch_example =
     add_processes (MultilevelQueueScheduler_init 3)
       [Process 1 ''A'' 0 2 0, Process 2 ''B'' 1 2 0]"

definition three_tiers :: "tier list" where
  "three_tiers =
     [\<lparr>algorithm = RR, time_quantum = Some 2, queue = []\<rparr>,
      \<lparr>algorithm = RR, time_quantum = Some 4, queue = []\<rparr>,
      \<lparr>algorithm = FCFS, time_quantum = None, queue = []\<rparr>]"

definition batch_final :: scheduler where
  "batch_final =
     \<lparr>policy = MultilevelQueueScheduler,
      processes =
        [\<lparr>pid = 1, name = ''A'', arrival_time = 0, burst_time = 2,
            priority = 0, remaining_time = 0, start_time = Some 0,
            finish_time = Some 3, waiting_time = 0,
            response_time = Some 0, state = TERMINATED,
            execution_history = [(0, 1), (2, 3)]\<rparr>,
         \<lparr>pid = 2, name = ''B'', arrival_time = 1, burst_time = 2,
            priority = 0, remaining_time = 0, start_time = Some 1,
            finish_time = Some 4, waiting_time = 0,
            response_time = Some 0, state = TERMINATED,
            execution_history = [(1, 2), (3, 4)]\<rparr>],
      current_time = 4, time_slice = 1, context_switch_overhead = 0,
      current_process = None, completed_processes = [0, 1],
      execution_log = [(Pid 1, 0, 1), (Pid 2, 1, 2), (Pid 1, 2, 3), (Pid 2, 3, 4)],
      preemptive = False, ready_queue = [], queue_count = 3,
      queues = three_tiers\<rparr>"

text \<open>
  A process of priority 0 (FCFS tier) and one of priority 2 (first round-robin tier) under
  a three-tier multilevel queue, and the scheduler object after its first and after its
  second call of \<^verbatim>\<open>run\<close>.
\<close>

definition mixed_example :: scheduler where
  "mixed_example =
     add_processes (MultilevelQueueScheduler_init 3)
       [Process 1 ''A'' 0 3 0, Process 2 ''B'' 1 2 2]"

definition mixed_first_run :: scheduler where
  "mixed_first_run =
     \<lparr>policy = MultilevelQueueScheduler,
      processes =
        [\<lparr>pid = 1, name = ''A'', arrival_time = 0, burst_time = 3,
            priority = 0, remaining_time = 0, start_time = Some 0,
            finish_time = Some 5, waiting_time = 0,
            response_time = Some 0, state = TERMINATED,
            execution_history = [(0, 1), (3, 5)]\<rparr>,
         \<lparr>pid = 2, name = ''B'', arrival_time = 1, burst_time = 2,
            priority = 2, remaining_time = 0, start_time = Some 1,
            finish_time = Some 3, waiting_time = 0,
            response_time = Some 0, state = TERMINATED,
            execution_history = [(1, 3)]\<rparr>],
      current_time = 5, time_slice = 2, context_switch_overhead = 0,
      current_process = None, completed_processes = [1, 0],
      execution_log = [(Pid 1, 0, 1), (Pid 2, 1, 3), (Pid 1, 3, 5)],
      preemptive = False, ready_queue = [], queue_count = 3,
      queues = three_tiers\<rparr>"

definition mixed_second_run :: scheduler where
  "mixed_second_run =
     \<lparr>policy = MultilevelQueueScheduler,
      processes =
        [\<lparr>pid = 1, name = ''A'', arrival_time = 0, burst_time = 3,
            priority = 0, remaining_time = 0, start_time = Some 0,
            finish_time = Some 5, waiting_time = 0,
            response_time = Some 0, state = TERMINATED,
            execution_history = [(0, 2), (4, 5)]\<rparr>,
         \<lparr>pid = 2, name = ''B'', arrival_time = 1, burst_time = 2,
            priority = 2, remaining_time = 0, start_time = Some 2,
            finish_time = Some 4, waiting_time = 0,
            response_time = Some 1, state = TERMINATED,
            execution_history = [(2, 4)]\<rparr>],
      current_time = 5, time_slice = 2, context_switch_overhead = 0,
      current_process = None, completed_processes = [1, 0],
      execution_log = [(Pid 1, 0, 2), (Pid 2, 2, 4), (Pid 1, 4, 5)],
      preemptive = False, ready_queue = [], queue_count = 3,
      queues = three_tiers\<rparr>"

text \<open>
  A round-robin workload that is not listed in order of arrival, and the state of its
  run (quantum 4) after the first pass through the loop, when B has run to completion
  and A and C have both arrived.
\<close>

definition unsorted_example :: scheduler where
  "unsorted_example =
     add_processes (RoundRobinScheduler_init 4)
       [Process 1 ''A'' 2 1 0, Process 2 ''B'' 0 4 0, Process 3 ''C'' 1 1 0]"

definition unsorted_after_1 :: scheduler where
  "unsorted_after_1 =
     \<lparr>policy = RoundRobinScheduler,
      processes =
        [\<lparr>pid = 1, name = ''A'', arrival_time = 2, burst_time = 1,
            priority = 0, remaining_time = 1, start_time = None,
            finish_time = None, waiting_time = 0, response_time = None,
            state = NEW, execution_history = []\<rparr>,
         \<lparr>pid = 2, name = ''B'', arrival_time = 0, burst_time = 4,
            priority = 0, remaining_time = 0, start_time = Some 0,
            finish_time = Some 4, waiting_time = 0, response_time = Some 0,
            state = TERMINATED, execution_history = [(0, 4)]\<rparr>,
         \<lparr>pid = 3, name = ''C'', arrival_time = 1, burst_time = 1,
            priority = 0, remaining_time = 1, start_time = None,
            finish_time = None, waiting_time = 0, response_time = None,
            state = NEW, execution_history = []\<rparr>],
      current_time = 4, time_slice = 4, context_switch_overhead = 0,
      current_process = None, completed_processes = [1],
      execution_log = [(Pid 2, 0, 4)], preemptive = False, ready_queue = [],
      queue_count = 0, queues = []\<rparr>"

text \<open>Two processes that tie on priority and on arrival time.\<close>

definition tie_example :: scheduler where
  "tie_example =
     reset (add_processes (PriorityScheduler_init False)
              [Process 1 ''A'' 0 3 5, Process 2 ''B'' 0 3 5])"

section \<open>Invariants of a run\<close>

text \<open>
  A process on which \<open>wait\<close> has no effect and has had none: its state is neither READY
  nor WAITING and its waiting time is 0.
\<close>

definition never_waits :: "process \<Rightarrow> bool" where
  "never_waits p \<longleftrightarrow> waiting_time p = 0 \<and> state p \<noteq> READY \<and> state p \<noteq> WAITING"

text \<open>
  The process references that a policy holds in its queues, and what makes them sound:
  no reference occurs twice, and each refers to a process of the run that has not
  terminated.
\<close>

definition tier_members :: "tier list \<Rightarrow> nat list" where
  "tier_members qs = concat (map queue qs)"

definition queued :: "scheduler \<Rightarrow> nat list" where
  "queued s =
     (case policy s of
        RoundRobinScheduler \<Rightarrow> ready_queue s
      | MultilevelQueueScheduler \<Rightarrow> tier_members (queues s)
      | _ \<Rightarrow> [])"

definition sound_queues :: "scheduler \<Rightarrow> bool" where
  "sound_queues s \<longleftrightarrow>
     distinct (queued s)
     \<and> (\<forall>i \<in> set (queued s). i < length (processes s) \<and> \<not> is_terminated (processes s ! i))"

text \<open>
  A process is well formed when its finish time is set only if it has terminated and its
  response time only if its start time is.  \<open>keeps_times\<close> relates an earlier and a later
  state of a process: whichever of the three times is set in the earlier state has the
  same value in the later one.
\<close>

definition well_formed :: "process \<Rightarrow> bool" where
  "well_formed p \<longleftrightarrow>
     (finish_time p \<noteq> None \<longrightarrow> state p = TERMINATED)
     \<and> (response_time p \<noteq> None \<longrightarrow> start_time p \<noteq> None)"

definition keeps_times :: "process \<Rightarrow> process \<Rightarrow> bool" where
  "keeps_times p p' \<longleftrightarrow>
     (start_time p \<noteq> None \<longrightarrow> start_time p' = start_time p)
     \<and> (response_time p \<noteq> None \<longrightarrow> response_time p' = response_time p)
     \<and> (finish_time p \<noteq> None \<longrightarrow> finish_time p' = finish_time p)"

definition run_inv :: "scheduler \<Rightarrow> bool" where
  "run_inv s \<longleftrightarrow>
     sound_queues s \<and> (\<forall>i < length (processes s). well_formed (processes s ! i))"

definition timing_inv :: "scheduler \<Rightarrow> bool" where
  "timing_inv s \<longleftrightarrow>
     0 \<le> time_slice s
     \<and> (\<forall>tq. Some tq \<in> set (map time_quantum (queues s)) \<longrightarrow> 0 \<le> tq)
     \<and> (\<forall>i < length (processes s). 0 \<le> remaining_time (processes s ! i))
     \<and> contiguous 0 (execution_log s) (current_time s)"

text \<open>The round-robin run of the unsorted workload when the loop exits.\<close>

definition unsorted_final :: scheduler where
  "unsorted_final =
     \<lparr>policy = RoundRobinScheduler,
      processes =
        [\<lparr>pid = 1, name = ''A'', arrival_time = 2, burst_time = 1,
            priority = 0, remaining_time = 0, start_time = Some 4,
            finish_time = Some 5, waiting_time = 0,
            response_time = Some 2, state = TERMINATED,
            execution_history = [(4, 5)]\<rparr>,
         \<lparr>pid = 2, name = ''B'', arrival_time = 0, burst_time = 4,
            priority = 0, remaining_time = 0, start_time = Some 0,
            finish_time = Some 4, waiting_time = 0,
            response_time = Some 0, state = TERMINATED,
            execution_history = [(0, 4)]\<rparr>,
         \<lparr>pid = 3, name = ''C'', arrival_time = 1, burst_time = 1,
            priority = 0, remaining_time = 0, start_time = Some 5,
            finish_time = Some 6, waiting_time = 0,
            response_time = Some 4, state = TERMINATED,
            execution_history = [(5, 6)]\<rparr>],
      current_time = 6, time_slice = 4, context_switch_overhead = 0,
      current_process = None, completed_processes = [1, 0, 2],
      execution_log = [(Pid 2, 0, 4), (Pid 1, 4, 5), (Pid 3, 5, 6)],
      preemptive = False, ready_queue = [], queue_count = 0, queues = []\<rparr>"

section \<open>Evaluating the loop on concrete workloads\<close>

declare run_loop.simps [simp del] iterations.simps [simp del]

lemma run_loop_stepI:
  "0 < n \<Longrightarrow> loop_cond u s \<Longrightarrow> loop_body s = Inr (Some s')
   \<Longrightarrow> run_loop (n - 1) u s' = R \<Longrightarrow> run_loop n u s = R"
  by (cases n) (simp_all add: run_loop.simps)

lemma run_loop_doneI:
  "0 < n \<Longrightarrow> \<not> loop_cond u s \<Longrightarrow> Some (Inr s) = R \<Longrightarrow> run_loop n u s = R"
  by (cases n) (auto simp: run_loop.simps)

lemma iterations_stepI:
  "0 < k \<Longrightarrow> loop_cond u s \<Longrightarrow> loop_body s = Inr (Some s')
   \<Longrightarrow> iterations (k - 1) u s' = R \<Longrightarrow> iterations k u s = R"
  by (cases k) (simp_all add: iterations.simps)

lemma loop_body_dispatchI:
  "ready_processes_of s = r \<Longrightarrow> r \<noteq> [] \<Longrightarrow> get_next_process s r = Inr (Some n, s1)
   \<Longrightarrow> context_switch s1 r n = s2 \<Longrightarrow> dispatch s2 r n = s3
   \<Longrightarrow> loop_body s = Inr (Some s3)"
  by (auto simp: loop_body_def)

lemmas init_defs = Process_def reset_process_def Scheduler_def FCFSScheduler_init_def
  PriorityScheduler_init_def RoundRobinScheduler_init_def MultilevelQueueScheduler_init_def
  add_processes_def reset_def run_def
lemmas ready_defs = ready_processes_of_def is_arrived_def is_terminated_def
lemmas policy_defs = get_next_process_def fcfs_get_next_process_def
  priority_get_next_process_def current_still_ready_def is_terminated_def
  rr_get_next_process_def rr_update_queue_def
  mlq_get_next_process_def mlq_requeue_current_def tier_append_def
  get_queue_for_process_def py_index_def Let_def
lemmas dispatch_defs = dispatch_def execute_def wait_others_def wait_def is_terminated_def Let_def

lemma fcfs_example_run: "run 10 None fcfs_example = Some (Inr fcfs_final)"
  apply (simp add: fcfs_example_def init_defs example_workload_def)
  apply (rule run_loop_stepI, simp, simp add: loop_cond_def, rule loop_body_dispatchI,
      simp add: ready_defs, simp, simp add: policy_defs, simp add: context_switch_def,
      simp add: dispatch_defs cong: let_weak_cong)+
  apply (rule run_loop_doneI, simp, simp add: loop_cond_def, simp add: fcfs_final_def)
  done

lemma fcfs_example_first_pass: "iterations 1 None (reset fcfs_example) = Some fcfs_after_1"
  apply (simp add: fcfs_example_def init_defs example_workload_def)
  apply (rule iterations_stepI, simp, simp add: loop_cond_def, rule loop_body_dispatchI,
      simp add: ready_defs, simp, simp add: policy_defs, simp add: context_switch_def,
      simp add: dispatch_defs cong: let_weak_cong)+
  apply (simp add: iterations.simps fcfs_after_1_def)
  done

lemma fcfs_example_later_passes: "iterations 8 None fcfs_after_1 = Some fcfs_final"
  apply (simp add: fcfs_after_1_def)
  apply (rule iterations_stepI, simp, simp add: loop_cond_def, rule loop_body_dispatchI,
      simp add: ready_defs, simp, simp add: policy_defs, simp add: context_switch_def,
      simp add: dispatch_defs cong: let_weak_cong)+
  apply (simp add: iterations.simps fcfs_final_def)
  done

lemma batch_example_run: "run 5 None batch_example = Some (Inr batch_final)"
  apply (simp add: batch_example_def init_defs)
  apply (rule run_loop_stepI, simp, simp add: loop_cond_def, rule loop_body_dispatchI,
      simp add: ready_defs, simp, simp add: policy_defs cong: let_weak_cong, simp add: context_switch_def,
      simp add: dispatch_defs cong: let_weak_cong)+
  apply (rule run_loop_doneI, simp, simp add: loop_cond_def, simp add: batch_final_def three_tiers_def)
  done

lemma mixed_example_first_run: "run 4 None mixed_example = Some (Inr mixed_first_run)"
  apply (simp add: mixed_example_def init_defs)
  apply (rule run_loop_stepI, simp, simp add: loop_cond_def, rule loop_body_dispatchI,
      simp add: ready_defs, simp, simp add: policy_defs cong: let_weak_cong, simp add: context_switch_def,
      simp add: dispatch_defs cong: let_weak_cong)+
  apply (rule run_loop_doneI, simp, simp add: loop_cond_def, simp add: mixed_first_run_def three_tiers_def)
  done

lemma mixed_example_second_run: "run 4 None mixed_first_run = Some (Inr mixed_second_run)"
  apply (simp add: mixed_first_run_def three_tiers_def init_defs)
  apply (rule run_loop_stepI, simp, simp add: loop_cond_def, rule loop_body_dispatchI,
      simp add: ready_defs, simp, simp add: policy_defs cong: let_weak_cong, simp add: context_switch_def,
      simp add: dispatch_defs cong: let_weak_cong)+
  apply (rule run_loop_doneI, simp, simp add: loop_cond_def, simp add: mixed_second_run_def three_tiers_def)
  done

lemma unsorted_example_first_pass:
  "iterations 1 None (reset unsorted_example) = Some unsorted_after_1"
  apply (simp add: unsorted_example_def init_defs)
  apply (rule iterations_stepI, simp, simp add: loop_cond_def, rule loop_body_dispatchI,
      simp add: ready_defs, simp, simp add: policy_defs, simp add: context_switch_def,
      simp add: dispatch_defs cong: let_weak_cong)+
  apply (simp add: iterations.simps unsorted_after_1_def)
  done


lemma run_loop_more_fuel:
  "run_loop n u s = Some r \<Longrightarrow> run_loop (n + m) u s = Some r"
proof (induction n arbitrary: s)
  case 0
  then show ?case by (simp add: run_loop.simps)
next
  case (Suc n)
  then show ?case
    by (auto simp: run_loop.simps split: if_splits sum.splits option.splits)
qed

lemma unsorted_example_later_passes:
  "iterations 2 None unsorted_after_1 = Some unsorted_final"
  apply (simp add: unsorted_after_1_def)
  apply (rule iterations_stepI, simp, simp add: loop_cond_def, rule loop_body_dispatchI,
      simp add: ready_defs, simp, simp add: policy_defs, simp add: context_switch_def,
      simp add: dispatch_defs cong: let_weak_cong)+
  apply (simp add: iterations.simps unsorted_final_def)
  done

lemma iterations_add:
  "iterations j u s = Some s1 \<Longrightarrow> iterations k u s1 = Some s2
   \<Longrightarrow> iterations (j + k) u s = Some s2"
  by (induction j arbitrary: s)
     (auto simp: iterations.simps split: if_splits sum.splits option.splits)

lemma iterations_one: "iterations 1 u s = Some s' \<Longrightarrow> loop_body s = Inr (Some s')"
  by (auto simp: iterations.simps split: if_splits sum.splits option.splits)

lemma fcfs_example_passes: "iterations 9 None (reset fcfs_example) = Some fcfs_final"
  using iterations_add [OF fcfs_example_first_pass fcfs_example_later_passes] by simp

section \<open>Processes, waiting and the loop body\<close>

lemma wait_NEW: "state p = NEW \<Longrightarrow> wait p d = p"
  by (simp add: wait_def)

lemma wait_others_length [simp]: "length (wait_others r n d ps) = length ps"
  unfolding wait_others_def
  by (induction r arbitrary: ps) simp_all

lemma wait_others_map:
  assumes "\<And>p. f (wait p d) = f p"
  shows "map f (wait_others r n d ps) = map f ps"
  unfolding wait_others_def
proof (induction r arbitrary: ps)
  case Nil
  show ?case by simp
next
  case (Cons i r)
  have "map f (ps[i := wait (ps ! i) d]) = map f ps"
    by (cases "i < length ps") (simp_all add: map_update assms list_update_same_conv list_update_beyond not_less)
  with Cons show ?case by simp
qed

lemma wait_others_nth:
  assumes "\<And>p. f (wait p d) = f p" and "i < length ps"
  shows "f (wait_others r n d ps ! i) = f (ps ! i)"
proof -
  have "map f (wait_others r n d ps) ! i = map f ps ! i"
    by (simp add: wait_others_map [of f, OF assms(1)])
  with assms(2) show ?thesis by simp
qed

lemma wait_others_skips: "wait_others r n d ps ! n = ps ! n"
  unfolding wait_others_def
  by (induction r arbitrary: ps) simp_all

lemma never_waits_wait: "never_waits p \<Longrightarrow> wait p d = p"
  by (simp add: never_waits_def wait_def)

lemma never_waits_wait_others:
  "\<forall>p \<in> set ps. never_waits p \<Longrightarrow> wait_others r n d ps = ps"
  unfolding wait_others_def
proof (induction r)
  case Nil
  show ?case by simp
next
  case (Cons i r)
  have "ps[i := wait (ps ! i) d] = ps"
  proof (cases "i < length ps")
    case True
    with Cons.prems have "never_waits (ps ! i)" by simp
    then show ?thesis by (simp add: never_waits_wait)
  qed (simp add: not_less list_update_beyond)
  with Cons show ?case by simp
qed

lemma never_waits_execute: "never_waits p \<Longrightarrow> never_waits (snd (execute p t q))"
  by (simp add: never_waits_def execute_def Let_def)

lemma map_sum_Inr_iff: "map_sum f g x = Inr y \<longleftrightarrow> (\<exists>b. x = Inr b \<and> y = g b)"
  by (cases x) auto

lemma get_next_process_frame:
  assumes "get_next_process s r = Inr (x, s1)"
  shows "processes s1 = processes s" "current_time s1 = current_time s"
    "execution_log s1 = execution_log s" "current_process s1 = current_process s"
    "completed_processes s1 = completed_processes s"
    "context_switch_overhead s1 = context_switch_overhead s" "policy s1 = policy s"
  using assms
  by (auto simp: get_next_process_def rr_get_next_process_def mlq_get_next_process_def
      map_sum_Inr_iff split: policy.splits sum.splits option.splits list.splits prod.splits if_splits)

lemma foldl_min_mem: "foldl min (x::int) xs \<in> set (x # xs)"
  by (induction xs arbitrary: x) (auto simp: min_def)

lemma min_default_mem: "min_default xs = Some t \<Longrightarrow> t \<in> set xs"
  using foldl_min_mem by (cases xs) auto

lemma loop_body_cases:
  assumes "loop_body s = Inr (Some s')"
  obtains (idle) t where "ready_processes_of s = []"
      and "s' = s\<lparr>execution_log := execution_log s @ [(IDLE, current_time s, t)], current_time := t\<rparr>"
      and "current_time s < t"
  | (dispatch) n s1 where "ready_processes_of s \<noteq> []"
      and "get_next_process s (ready_processes_of s) = Inr (Some n, s1)"
      and "s' = dispatch (context_switch s1 (ready_processes_of s) n) (ready_processes_of s) n"
proof (cases "ready_processes_of s = []")
  case True
  with assms obtain t where
    t: "min_default (map arrival_time
          (filter (\<lambda>p. \<not> is_terminated p \<and> arrival_time p > current_time s) (processes s)))
        = Some t"
    and s': "s' = (if current_time s < t
                  then s\<lparr>execution_log := execution_log s @ [(IDLE, current_time s, t)]\<rparr>
                  else s)\<lparr>current_time := t\<rparr>"
    by (auto simp: loop_body_def split: option.splits)
  from t have "current_time s < t"
    by (auto dest!: min_default_mem)
  with s' True show ?thesis by (intro idle [of t]) simp_all
next
  case False
  with assms obtain n s1 where
    "get_next_process s (ready_processes_of s) = Inr (Some n, s1)"
    "s' = dispatch (context_switch s1 (ready_processes_of s) n) (ready_processes_of s) n"
    by (auto simp: loop_body_def Let_def split: sum.splits option.splits prod.splits)
  with False show ?thesis by (intro dispatch)
qed

lemma iterations_invariant:
  assumes "iterations k u s0 = Some s" and "P s0"
    and "\<And>s s'. P s \<Longrightarrow> loop_body s = Inr (Some s') \<Longrightarrow> P s'"
  shows "P s"
  using assms(1,2)
proof (induction k arbitrary: s0)
  case 0
  then show ?case by (simp add: iterations.simps)
next
  case (Suc k)
  then show ?case
    by (auto simp: iterations.simps assms(3) split: if_splits sum.splits option.splits)
qed


lemma context_switch_processes:
  "processes (context_switch s r n) = processes s
   \<or> processes (context_switch s r n) = wait_others r n (context_switch_overhead s) (processes s)"
  by (simp add: context_switch_def)

lemma context_switch_frame [simp]:
  "policy (context_switch s r n) = policy s"
  "time_slice (context_switch s r n) = time_slice s"
  "ready_queue (context_switch s r n) = ready_queue s"
  "queues (context_switch s r n) = queues s"
  "completed_processes (context_switch s r n) = completed_processes s"
  "context_switch_overhead (context_switch s r n) = context_switch_overhead s"
  "length (processes (context_switch s r n)) = length (processes s)"
  by (simp_all add: context_switch_def)

lemma dispatch_processes:
  "processes (dispatch s r n) =
     wait_others r n (fst (execute (processes s ! n) (current_time s) (time_slice s)))
       ((processes s)[n := snd (execute (processes s ! n) (current_time s) (time_slice s))])"
  by (simp add: dispatch_def Let_def split_beta)

lemma dispatch_frame [simp]:
  "policy (dispatch s r n) = policy s"
  "time_slice (dispatch s r n) = time_slice s"
  "ready_queue (dispatch s r n) = ready_queue s"
  "queues (dispatch s r n) = queues s"
  "context_switch_overhead (dispatch s r n) = context_switch_overhead s"
  "length (processes (dispatch s r n)) = length (processes s)"
  by (simp_all add: dispatch_def Let_def split_beta)

lemma reset_processes [simp]: "processes (reset s) = map reset_process (processes s)"
  by (simp add: reset_def Let_def split: policy.splits)

lemma never_waits_reset: "\<forall>p \<in> set (processes (reset s)). never_waits p"
  by (simp add: never_waits_def reset_process_def)

lemma never_waits_loop_body:
  assumes "\<forall>p \<in> set (processes s). never_waits p" and "loop_body s = Inr (Some s')"
  shows "\<forall>p \<in> set (processes s'). never_waits p"
  using assms(2)
proof (cases rule: loop_body_cases)
  case (idle t)
  with assms(1) show ?thesis by simp
next
  case (dispatch n s1)
  let ?r = "ready_processes_of s"
  let ?c = "context_switch s1 ?r n"
  have s1: "processes s1 = processes s"
    using dispatch(2) by (rule get_next_process_frame)
  have c: "processes ?c = processes s"
    using context_switch_processes [of s1 ?r n] assms(1)
    by (auto simp: s1 never_waits_wait_others)
  let ?ex = "execute (processes s ! n) (current_time ?c) (time_slice ?c)"
  have upd: "\<forall>p \<in> set ((processes s)[n := snd ?ex]). never_waits p"
  proof (cases "n < length (processes s)")
    case True
    with assms(1) have "never_waits (snd ?ex)"
      by (simp add: never_waits_execute)
    with assms(1) show ?thesis
      using set_update_subset_insert [of "processes s" n "snd ?ex"] by auto
  next
    case False
    with assms(1) show ?thesis by (simp add: not_less list_update_beyond)
  qed
  then have "processes s' = (processes s)[n := snd ?ex]"
    by (simp add: dispatch(3) dispatch_processes c never_waits_wait_others)
  with upd show ?thesis by simp
qed

lemma waiting_time_execute [simp]: "waiting_time (snd (execute p t q)) = waiting_time p"
  by (simp add: execute_def Let_def)

lemma new_keeps_waiting_time:
  assumes "loop_body s = Inr (Some s')" and "i < length (processes s)"
    and "state (processes s ! i) = NEW"
  shows "waiting_time (processes s' ! i) = waiting_time (processes s ! i)"
  using assms(1)
proof (cases rule: loop_body_cases)
  case (idle t)
  then show ?thesis by simp
next
  case (dispatch n s1)
  let ?r = "ready_processes_of s"
  let ?c = "context_switch s1 ?r n"
  let ?f = "\<lambda>p. (state p, if state p = NEW then waiting_time p else 0)"
  have f: "?f (wait p d) = ?f p" for p d
    by (simp add: wait_def)
  have s1: "processes s1 = processes s"
    using dispatch(2) by (rule get_next_process_frame)
  have "?f (processes ?c ! i) = ?f (processes s ! i)"
    using context_switch_processes [of s1 ?r n] assms(2)
      wait_others_nth [of ?f "context_switch_overhead s1" i "processes s" ?r n, OF f]
    by (auto simp: s1)
  with assms(3) have c: "state (processes ?c ! i) = NEW"
    "waiting_time (processes ?c ! i) = waiting_time (processes s ! i)"
    by (auto split: if_splits)
  have len: "i < length (processes ?c)"
    using assms(2) by (simp add: s1)
  let ?ex = "execute (processes ?c ! n) (current_time ?c) (time_slice ?c)"
  show ?thesis
  proof (cases "i = n")
    case True
    with len c show ?thesis
      by (simp add: dispatch(3) dispatch_processes wait_others_skips)
  next
    case False
    have "?f (processes s' ! i) = ?f ((processes ?c)[n := snd ?ex] ! i)"
      unfolding dispatch(3) dispatch_processes
      using len by (intro wait_others_nth [of ?f, OF f]) simp
    with False c show ?thesis by (auto split: if_splits)
  qed
qed

text \<open>The state that the loop returns is the state after some number of passes.\<close>

lemma run_result_is_reached:
  "run_loop n u s = Some (Inr s') \<Longrightarrow> \<exists>k \<le> n. iterations k u s = Some s'"
proof (induction n arbitrary: s)
  case 0
  then show ?case by (simp add: run_loop.simps)
next
  case (Suc n)
  show ?case
  proof (cases "loop_cond u s \<and> (\<exists>s1. loop_body s = Inr (Some s1))")
    case True
    then obtain s1 where s1: "loop_body s = Inr (Some s1)" and c: "loop_cond u s" by auto
    with Suc.prems have "run_loop n u s1 = Some (Inr s')"
      by (simp add: run_loop.simps)
    then obtain k where "k \<le> n" "iterations k u s1 = Some s'"
      using Suc.IH by blast
    with s1 c have "Suc k \<le> Suc n \<and> iterations (Suc k) u s = Some s'"
      by (simp add: iterations.simps)
    then show ?thesis by blast
  next
    case False
    with Suc.prems have "s' = s"
      by (auto simp: run_loop.simps split: if_splits sum.splits option.splits)
    then have "iterations 0 u s = Some s'"
      by (simp add: iterations.simps)
    then show ?thesis by blast
  qed
qed

section \<open>What the policies guarantee\<close>

lemma foldl_pick_mem:
  "foldl (\<lambda>best y. if c best y then y else best) x xs \<in> set (x # xs)"
  by (induction xs arbitrary: x) auto

lemma py_min_mem: "py_min key xs = Inr n \<Longrightarrow> n \<in> set xs"
  using foldl_pick_mem [of "\<lambda>best y. key y < key best"]
  by (cases xs) auto

lemma py_max_mem: "py_max key xs = Inr n \<Longrightarrow> n \<in> set xs"
  using foldl_pick_mem [of "\<lambda>best y. key best < key y"]
  by (cases xs) auto

lemma current_still_ready_mem:
  "current_still_ready s r = Some c \<Longrightarrow> c \<in> set r \<and> current_process s = Some c
     \<and> \<not> is_terminated (processes s ! c)"
  by (auto simp: current_still_ready_def split: option.splits if_splits)

lemma ready_processes_of_mem:
  "i \<in> set (ready_processes_of s) \<Longrightarrow> i < length (processes s) \<and> \<not> is_terminated (processes s ! i)"
  by (simp add: ready_processes_of_def)

lemma distinct_ready_processes_of [simp]: "distinct (ready_processes_of s)"
  by (simp add: ready_processes_of_def)

subsection \<open>Round robin\<close>

lemma set_rr_enqueue: "set (rr_enqueue ps pids q r) \<subseteq> set q \<union> set r"
proof (induction r arbitrary: q)
  case Nil
  show ?case by simp
next
  case (Cons i r)
  let ?q = "if pid (ps ! i) \<notin> pids \<and> i \<notin> set q then q @ [i] else q"
  have "set (rr_enqueue ps pids ?q r) \<subseteq> set ?q \<union> set r"
    by (rule Cons.IH)
  then show ?case by (auto split: if_splits)
qed

lemma distinct_rr_enqueue: "distinct q \<Longrightarrow> distinct (rr_enqueue ps pids q r)"
  by (induction r arbitrary: q) auto

lemma rr_enqueue_eq:
  "distinct r \<Longrightarrow>
   rr_enqueue ps pids q r = q @ filter (\<lambda>i. pid (ps ! i) \<notin> pids \<and> i \<notin> set q) r"
proof (induction r arbitrary: q)
  case Nil
  show ?case by simp
next
  case (Cons i r)
  have "filter (\<lambda>j. pid (ps ! j) \<notin> pids \<and> j \<notin> set (q @ [i])) r
        = filter (\<lambda>j. pid (ps ! j) \<notin> pids \<and> j \<notin> set q) r"
    using Cons.prems by (intro filter_cong) auto
  with Cons show ?case by simp
qed

lemma set_rr_update_queue:
  "set (rr_update_queue s r) \<subseteq> set (ready_queue s) \<union> set r"
  using set_rr_enqueue [of "processes s" _ "ready_queue s" r]
  by (auto simp: rr_update_queue_def Let_def dest!: current_still_ready_mem
      split: option.splits dest: notin_set_remove1)

lemma distinct_rr_update_queue:
  "distinct (ready_queue s) \<Longrightarrow> distinct r \<Longrightarrow> distinct (rr_update_queue s r)"
  by (auto simp: rr_update_queue_def Let_def distinct_rr_enqueue split: option.splits)

text \<open>
  The queue from which \<open>rr_get_next_process\<close> pops, when the old queue holds no process
  twice and the ready list has no repetitions: the old queue without the process that ran
  last, then the ready processes whose pid is not yet queued, in the order of the ready
  list, then the process that ran last if it is still ready and unfinished.  No process
  occurs twice in it, and the queue left behind does not hold the selected process.
\<close>

lemma rr_update_queue_shape:
  assumes "distinct (ready_queue s)" and "distinct r"
  shows "rr_update_queue s r =
           filter (\<lambda>i. current_still_ready s r \<noteq> Some i) (ready_queue s)
           @ filter (\<lambda>i. pid (processes s ! i) \<notin> (\<lambda>i. pid (processes s ! i)) ` set (ready_queue s)
                         \<and> current_still_ready s r \<noteq> Some i) r
           @ (case current_still_ready s r of None \<Rightarrow> [] | Some c \<Rightarrow> [c])
       \<and> distinct (rr_update_queue s r)
       \<and> (\<forall>n s'. rr_get_next_process s r = (Some n, s') \<longrightarrow>
            rr_update_queue s r = n # ready_queue s' \<and> n \<notin> set (ready_queue s')
            \<and> distinct (ready_queue s'))"
proof -
  let ?pids = "(\<lambda>i. pid (processes s ! i)) ` set (ready_queue s)"
  let ?q1 = "rr_enqueue (processes s) ?pids (ready_queue s) r"
  let ?new = "filter (\<lambda>i. pid (processes s ! i) \<notin> ?pids) r"
  let ?q2 = "case current_still_ready s r of Some c \<Rightarrow> remove1 c ?q1 @ [c] | None \<Rightarrow> ?q1"
  have "filter (\<lambda>i. pid (processes s ! i) \<notin> ?pids \<and> i \<notin> set (ready_queue s)) r = ?new"
    by (intro filter_cong) auto
  with assms(2) have q1: "?q1 = ready_queue s @ ?new"
    by (simp add: rr_enqueue_eq)
  have d1: "distinct ?q1"
    using assms(1) by (rule distinct_rr_enqueue)
  have q1_nonempty: "?q1 \<noteq> []" if "r \<noteq> []"
  proof (cases "ready_queue s = []")
    case True
    then have "?new = r" by simp
    with that show ?thesis unfolding q1 by simp
  next
    case False
    then show ?thesis unfolding q1 by simp
  qed
  have nonempty: "?q2 \<noteq> []" if "r \<noteq> []"
    using q1_nonempty [OF that] by (cases "current_still_ready s r") simp_all
  then have upd: "rr_update_queue s r = ?q2"
    by (auto simp: rr_update_queue_def Let_def)
  have shape: "?q2 =
      filter (\<lambda>i. current_still_ready s r \<noteq> Some i) (ready_queue s)
      @ filter (\<lambda>i. pid (processes s ! i) \<notin> ?pids \<and> current_still_ready s r \<noteq> Some i) r
      @ (case current_still_ready s r of None \<Rightarrow> [] | Some c \<Rightarrow> [c])"
  proof (cases "current_still_ready s r")
    case None
    then show ?thesis by (simp add: q1)
  next
    case (Some c)
    have "remove1 c ?q1 = filter (\<lambda>i. c \<noteq> i) ?q1"
      using d1 by (simp add: distinct_remove1_removeAll removeAll_filter_not_eq)
    then have "remove1 c ?q1 = filter (\<lambda>i. c \<noteq> i) (ready_queue s) @ filter (\<lambda>i. c \<noteq> i) ?new"
      by (simp add: q1)
    moreover have "filter (\<lambda>i. c \<noteq> i) ?new
        = filter (\<lambda>i. pid (processes s ! i) \<notin> ?pids \<and> c \<noteq> i) r"
      by (simp add: conj_commute)
    ultimately show ?thesis
      by (simp add: Some)
  qed
  have d2: "distinct (rr_update_queue s r)"
    using assms by (rule distinct_rr_update_queue)
  have "rr_update_queue s r = n # ready_queue s' \<and> n \<notin> set (ready_queue s')
        \<and> distinct (ready_queue s')"
    if "rr_get_next_process s r = (Some n, s')" for n s'
  proof -
    from that have "rr_update_queue s r = n # ready_queue s'"
      by (auto simp: rr_get_next_process_def split: list.splits)
    with d2 show ?thesis by simp
  qed
  with upd shape d2 show ?thesis by simp
qed

subsection \<open>Multilevel queue\<close>

lemma py_index_bound: "py_index xs k = Inr j \<Longrightarrow> j < length xs"
  by (auto simp: py_index_def Let_def split: if_splits)

lemma tier_append_Cons:
  "tier_append (q # qs) 0 i = q\<lparr>queue := queue q @ [i]\<rparr> # qs"
  "tier_append (q # qs) (Suc j) i = q # tier_append qs j i"
  by (simp_all add: tier_append_def)

lemma length_tier_append [simp]: "length (tier_append qs j i) = length qs"
  by (simp add: tier_append_def)

lemma set_tier_members_append:
  "j < length qs \<Longrightarrow> set (tier_members (tier_append qs j i)) = insert i (set (tier_members qs))"
proof (induction qs arbitrary: j)
  case Nil
  then show ?case by simp
next
  case (Cons q qs)
  then show ?case
    by (cases j) (auto simp: tier_append_Cons tier_members_def)
qed

lemma distinct_tier_members_append:
  "j < length qs \<Longrightarrow> i \<notin> set (tier_members qs) \<Longrightarrow> distinct (tier_members qs)
   \<Longrightarrow> distinct (tier_members (tier_append qs j i))"
proof (induction qs arbitrary: j)
  case Nil
  then show ?case by simp
next
  case (Cons q qs)
  show ?case
  proof (cases j)
    case 0
    with Cons.prems show ?thesis
      by (auto simp: tier_append_Cons tier_members_def)
  next
    case (Suc j')
    with Cons.prems have "distinct (tier_members (tier_append qs j' i))"
      by (intro Cons.IH) (auto simp: tier_members_def)
    moreover have "set (tier_members (tier_append qs j' i)) = insert i (set (tier_members qs))"
      using Cons.prems Suc by (intro set_tier_members_append) simp
    ultimately show ?thesis
      using Cons.prems Suc by (auto simp: tier_append_Cons tier_members_def)
  qed
qed

lemma quanta_tier_append [simp]:
  "map time_quantum (tier_append qs j i) = map time_quantum qs"
  by (cases "j < length qs")
     (simp_all add: tier_append_def map_update list_update_same_conv list_update_beyond not_less)

lemma list_ex_tier_members: "list_ex (\<lambda>q. i \<in> set (queue q)) qs \<longleftrightarrow> i \<in> set (tier_members qs)"
  by (auto simp: list_ex_iff tier_members_def)

lemma mlq_enqueue_sound:
  assumes "mlq_enqueue s qs r = Inr qs'"
  shows "set (tier_members qs') \<subseteq> set (tier_members qs) \<union> set r"
    and "distinct (tier_members qs) \<Longrightarrow> distinct (tier_members qs')"
    and "map time_quantum qs' = map time_quantum qs"
  using assms
proof (induction r arbitrary: qs)
  case Nil
  { case 1 then show ?case by simp }
  { case 2 then show ?case by simp }
  { case 3 then show ?case by simp }
next
  case (Cons i r)
  { case 1 then show ?case
      using Cons.IH(1)
      by (fastforce simp: list_ex_tier_members set_tier_members_append
          split: if_splits sum.splits dest: py_index_bound) }
  { case 2
    show ?case
    proof (cases "i \<notin> set (tier_members qs) \<and> Some i \<noteq> current_process s")
      case True
      with 2 obtain j where j: "py_index qs (get_queue_for_process s (processes s ! i)) = Inr j"
        and rest: "mlq_enqueue s (tier_append qs j i) r = Inr qs'"
        by (auto simp: list_ex_tier_members split: sum.splits)
      from j have "j < length qs" by (rule py_index_bound)
      with True 2 have "distinct (tier_members (tier_append qs j i))"
        by (intro distinct_tier_members_append) simp_all
      then show ?thesis using rest by (rule Cons.IH(2))
    next
      case False
      with 2 have "mlq_enqueue s qs r = Inr qs'"
        by (auto simp: list_ex_tier_members)
      with 2 show ?thesis by (intro Cons.IH(2))
    qed }
  { case 3 then show ?case
      using Cons.IH(3)
      by (fastforce split: if_splits sum.splits) }
qed


lemma tier_members_remove:
  "set (tier_members (map (\<lambda>q. q\<lparr>queue := remove1 c (queue q)\<rparr>) qs)) \<subseteq> set (tier_members qs)"
  "distinct (tier_members qs) \<Longrightarrow>
     distinct (tier_members (map (\<lambda>q. q\<lparr>queue := remove1 c (queue q)\<rparr>) qs))
     \<and> c \<notin> set (tier_members (map (\<lambda>q. q\<lparr>queue := remove1 c (queue q)\<rparr>) qs))"
proof -
  show "set (tier_members (map (\<lambda>q. q\<lparr>queue := remove1 c (queue q)\<rparr>) qs)) \<subseteq> set (tier_members qs)"
    by (induction qs) (auto simp: tier_members_def dest: notin_set_remove1)
  then have sub: "set (tier_members (map (\<lambda>q. q\<lparr>queue := remove1 c (queue q)\<rparr>) qs'))
      \<subseteq> set (tier_members qs')" for qs'
    by (induction qs') (auto simp: tier_members_def dest: notin_set_remove1)
  show "distinct (tier_members qs) \<Longrightarrow>
     distinct (tier_members (map (\<lambda>q. q\<lparr>queue := remove1 c (queue q)\<rparr>) qs))
     \<and> c \<notin> set (tier_members (map (\<lambda>q. q\<lparr>queue := remove1 c (queue q)\<rparr>) qs))"
  proof (induction qs)
    case Nil
    show ?case by (simp add: tier_members_def)
  next
    case (Cons q qs)
    from Cons.prems have d: "distinct (queue q)" "distinct (tier_members qs)"
      "set (queue q) \<inter> set (tier_members qs) = {}"
      by (auto simp: tier_members_def)
    have "set (remove1 c (queue q)) \<inter>
          set (tier_members (map (\<lambda>q. q\<lparr>queue := remove1 c (queue q)\<rparr>) qs)) = {}"
      using d(3) sub [of qs] set_remove1_subset [of c "queue q"] by blast
    with Cons.IH [OF d(2)] d(1) show ?case
      by (auto simp: tier_members_def)
  qed
qed

lemma mlq_requeue_current_sound:
  assumes "mlq_requeue_current s qs r = Inr qs'"
  shows "set (tier_members qs') \<subseteq> set (tier_members qs) \<union> set r"
    and "distinct (tier_members qs) \<Longrightarrow> distinct (tier_members qs')"
    and "map time_quantum qs' = map time_quantum qs"
proof -
  show "map time_quantum qs' = map time_quantum qs"
    using assms
    by (auto simp: mlq_requeue_current_def comp_def split: option.splits sum.splits if_splits)
  show "set (tier_members qs') \<subseteq> set (tier_members qs) \<union> set r"
  proof (cases "qs' = qs")
    case False
    with assms obtain c j where c: "current_still_ready s r = Some c"
      and j: "py_index qs (get_queue_for_process s (processes s ! c)) = Inr j"
      and qs': "qs' = tier_append (map (\<lambda>q. q\<lparr>queue := remove1 c (queue q)\<rparr>) qs) j c"
      by (auto simp: mlq_requeue_current_def split: option.splits sum.splits if_splits)
    from j have "j < length (map (\<lambda>q. q\<lparr>queue := remove1 c (queue q)\<rparr>) qs)"
      by (simp add: py_index_bound)
    then show ?thesis
      using tier_members_remove(1) [of c qs] current_still_ready_mem [OF c]
      by (auto simp: qs' set_tier_members_append)
  qed simp
  show "distinct (tier_members qs')" if dist: "distinct (tier_members qs)"
  proof (cases "qs' = qs")
    case False
    with assms obtain c j where c: "current_still_ready s r = Some c"
      and j: "py_index qs (get_queue_for_process s (processes s ! c)) = Inr j"
      and qs': "qs' = tier_append (map (\<lambda>q. q\<lparr>queue := remove1 c (queue q)\<rparr>) qs) j c"
      by (auto simp: mlq_requeue_current_def split: option.splits sum.splits if_splits)
    from j have "j < length (map (\<lambda>q. q\<lparr>queue := remove1 c (queue q)\<rparr>) qs)"
      by (simp add: py_index_bound)
    then show ?thesis
      unfolding qs' using tier_members_remove(2) [OF dist, of c]
      by (intro distinct_tier_members_append) simp_all
  qed (simp add: dist)
qed

lemma mlq_select_sound:
  "mlq_select qs = Inr (Some (p, qs', ts)) \<Longrightarrow>
     tier_members qs = p # tier_members qs'
     \<and> map time_quantum qs' = map time_quantum qs
     \<and> (\<forall>tq. ts = Some tq \<longrightarrow> Some tq \<in> set (map time_quantum qs))"
proof (induction qs arbitrary: qs')
  case Nil
  then show ?case by simp
next
  case (Cons q qs)
  show ?case
  proof (cases "queue q")
    case Nil
    with Cons.prems obtain qs'' where "mlq_select qs = Inr (Some (p, qs'', ts))" "qs' = q # qs''"
      by (auto split: sum.splits option.splits)
    with Cons.IH [of qs''] Nil show ?thesis
      by (auto simp: tier_members_def)
  next
    case (Cons a rest)
    with Cons.prems show ?thesis
      by (auto simp: tier_members_def split: algorithm.splits option.splits)
  qed
qed

lemma mlq_select_None: "mlq_select qs = Inr None \<Longrightarrow> tier_members qs = []"
  by (induction qs)
     (auto simp: tier_members_def split: list.splits sum.splits option.splits algorithm.splits)

text \<open>What a selection guarantees, for every policy.\<close>

lemma get_next_process_sound:
  assumes inv: "sound_queues s"
    and sel: "get_next_process s (ready_processes_of s) = Inr (Some n, s1)"
  shows "n < length (processes s) \<and> \<not> is_terminated (processes s ! n)"
    and "n \<notin> set (queued s1)"
    and "distinct (queued s1)"
    and "\<forall>i \<in> set (queued s1). i < length (processes s) \<and> \<not> is_terminated (processes s ! i)"
proof -
  let ?r = "ready_processes_of s"
  let ?ok = "\<lambda>i. i < length (processes s) \<and> \<not> is_terminated (processes s ! i)"
  have ready: "?ok i" if "i \<in> set ?r" for i
    using that by (rule ready_processes_of_mem)
  have old: "?ok i" if "i \<in> set (queued s)" for i
    using inv that by (simp add: sound_queues_def)
  have pol: "policy s1 = policy s"
    using sel by (rule get_next_process_frame)
  have "?ok n \<and> n \<notin> set (queued s1) \<and> distinct (queued s1) \<and> (\<forall>i \<in> set (queued s1). ?ok i)"
  proof (cases "policy s")
    case RoundRobinScheduler
    with sel have upd: "rr_update_queue s ?r = n # ready_queue s1"
      by (auto simp: get_next_process_def rr_get_next_process_def split: list.splits)
    have "distinct (rr_update_queue s ?r)"
      using inv RoundRobinScheduler
      by (intro distinct_rr_update_queue) (simp_all add: sound_queues_def queued_def)
    moreover have "\<forall>i \<in> set (rr_update_queue s ?r). ?ok i"
      using set_rr_update_queue [of s ?r] ready old RoundRobinScheduler
      by (auto simp: queued_def)
    ultimately show ?thesis
      using pol RoundRobinScheduler by (simp add: upd queued_def)
  next
    case MultilevelQueueScheduler
    with sel obtain qs1 qs2 where
      enq: "mlq_enqueue s (queues s) ?r = Inr qs1"
      and req: "mlq_requeue_current s qs1 ?r = Inr qs2"
      by (auto simp: get_next_process_def mlq_get_next_process_def split: sum.splits)
    have d2: "distinct (tier_members qs2)"
      using inv MultilevelQueueScheduler mlq_enqueue_sound(2) [OF enq]
        mlq_requeue_current_sound(2) [OF req]
      by (simp add: sound_queues_def queued_def)
    have ok2: "\<forall>i \<in> set (tier_members qs2). ?ok i"
      using mlq_enqueue_sound(1) [OF enq] mlq_requeue_current_sound(1) [OF req]
        ready old MultilevelQueueScheduler
      by (auto simp: queued_def)
    show ?thesis
    proof (cases "mlq_select qs2")
      case (Inl e)
      with sel enq req MultilevelQueueScheduler show ?thesis
        by (simp add: get_next_process_def mlq_get_next_process_def)
    next
      case (Inr x)
      show ?thesis
      proof (cases x)
        case None
        with Inr sel enq req MultilevelQueueScheduler
        have "py_min (\<lambda>i. (arrival_time (processes s ! i), pid (processes s ! i))) ?r = Inr n"
          and "queues s1 = qs2"
          by (auto simp: get_next_process_def mlq_get_next_process_def
              split: if_splits sum.splits)
        moreover have "tier_members qs2 = []"
          using Inr None by (simp add: mlq_select_None)
        ultimately show ?thesis
          using pol MultilevelQueueScheduler ready by (auto simp: queued_def dest: py_min_mem)
      next
        case (Some t)
        obtain p qs3 ts where t: "t = (p, qs3, ts)" by (cases t)
        with Some Inr sel enq req MultilevelQueueScheduler
        have "n = p" "queues s1 = qs3"
          by (auto simp: get_next_process_def mlq_get_next_process_def)
        moreover have "tier_members qs2 = p # tier_members qs3"
          using Inr Some t mlq_select_sound [of qs2 p qs3 ts] by simp
        ultimately show ?thesis
          using pol MultilevelQueueScheduler d2 ok2 by (auto simp: queued_def)
      qed
    qed
  next
    case FCFSScheduler
    with sel pol have "n \<in> set ?r" "queued s1 = []"
      by (auto simp: get_next_process_def fcfs_get_next_process_def map_sum_Inr_iff queued_def
          dest: py_min_mem)
    with ready show ?thesis by simp
  next
    case SJFScheduler
    with sel pol have "n \<in> set ?r" "queued s1 = []"
      by (auto simp: get_next_process_def sjf_get_next_process_def map_sum_Inr_iff queued_def
          split: option.splits dest: py_min_mem current_still_ready_mem)
    with ready show ?thesis by simp
  next
    case SRTFScheduler
    with sel pol have "n \<in> set ?r" "queued s1 = []"
      by (auto simp: get_next_process_def srtf_get_next_process_def map_sum_Inr_iff queued_def
          dest: py_min_mem)
    with ready show ?thesis by simp
  next
    case PriorityScheduler
    with sel pol have "n \<in> set ?r" "queued s1 = []"
      by (auto simp: get_next_process_def priority_get_next_process_def map_sum_Inr_iff
          queued_def split: option.splits if_splits dest: py_max_mem current_still_ready_mem)
    with ready show ?thesis by simp
  qed
  then show "n < length (processes s) \<and> \<not> is_terminated (processes s ! n)"
    and "n \<notin> set (queued s1)" and "distinct (queued s1)"
    and "\<forall>i \<in> set (queued s1). i < length (processes s) \<and> \<not> is_terminated (processes s ! i)"
    by simp_all
qed

section \<open>Preservation of the invariants\<close>

lemma keeps_times_refl [simp]: "keeps_times p p"
  by (simp add: keeps_times_def)

lemma keeps_times_trans: "keeps_times p p' \<Longrightarrow> keeps_times p' p'' \<Longrightarrow> keeps_times p p''"
  by (auto simp: keeps_times_def)

lemma execute_times:
  assumes "well_formed p" and "\<not> is_terminated p"
  shows "well_formed (snd (execute p t q))" and "keeps_times p (snd (execute p t q))"
  using assms
  by (auto simp: well_formed_def keeps_times_def is_terminated_def execute_def Let_def)

lemma fst_execute: "fst (execute p t q) = min q (remaining_time p)"
  by (simp add: execute_def Let_def)

lemma remaining_time_execute:
  "remaining_time (snd (execute p t q)) = remaining_time p - min q (remaining_time p)"
  by (simp add: execute_def Let_def)

lemma queued_frame:
  "policy s' = policy s \<Longrightarrow> ready_queue s' = ready_queue s \<Longrightarrow> queues s' = queues s
   \<Longrightarrow> queued s' = queued s"
  by (cases "policy s") (simp_all add: queued_def)

text \<open>
  The part of a process that \<open>wait\<close> cannot change: every field but the waiting time.
\<close>

lemma wait_core [simp]:
  "state (wait p d) = state p" "start_time (wait p d) = start_time p"
  "response_time (wait p d) = response_time p" "finish_time (wait p d) = finish_time p"
  "remaining_time (wait p d) = remaining_time p"
  by (simp_all add: wait_def)

lemma context_switch_nth:
  assumes "\<And>p d. f (wait p d) = f p" and "i < length (processes s)"
  shows "f (processes (context_switch s r n) ! i) = f (processes s ! i)"
  using context_switch_processes [of s r n] assms
  by (auto simp: wait_others_nth)

lemma dispatch_nth:
  assumes "\<And>p d. f (wait p d) = f p" and "i < length (processes s)"
  shows "f (processes (dispatch s r n) ! i) =
         (if i = n then f (snd (execute (processes s ! n) (current_time s) (time_slice s)))
          else f (processes s ! i))"
proof -
  let ?ps = "(processes s)[n := snd (execute (processes s ! n) (current_time s) (time_slice s))]"
  have "f (processes (dispatch s r n) ! i) = f (?ps ! i)"
    unfolding dispatch_processes using assms by (intro wait_others_nth) simp_all
  with assms(2) show ?thesis by (simp add: nth_list_update)
qed

lemma tier_members_cleared [simp]: "tier_members (map (\<lambda>q. q\<lparr>queue := []\<rparr>) qs) = []"
  by (induction qs) (simp_all add: tier_members_def)

lemma run_inv_reset: "run_inv (reset s)"
  by (cases "policy s")
     (simp_all add: run_inv_def sound_queues_def queued_def reset_def Let_def
        well_formed_def reset_process_def)

lemma run_inv_step:
  assumes inv: "run_inv s" and step: "loop_body s = Inr (Some s')"
  shows "run_inv s' \<and> length (processes s') = length (processes s)
    \<and> (\<forall>i < length (processes s). keeps_times (processes s ! i) (processes s' ! i))"
  using step
proof (cases rule: loop_body_cases)
  case (idle t)
  have "queued s' = queued s"
    by (rule queued_frame) (simp_all add: idle(2))
  with inv show ?thesis
    by (simp add: run_inv_def sound_queues_def idle(2))
next
  case (dispatch n s1)
  let ?r = "ready_processes_of s"
  let ?c = "context_switch s1 ?r n"
  let ?p' = "snd (execute (processes ?c ! n) (current_time ?c) (time_slice ?c))"
  let ?f = "\<lambda>p. (state p, start_time p, response_time p, finish_time p)"
  have f: "?f (wait p d) = ?f p" for p d by simp
  have s1: "processes s1 = processes s"
    using dispatch(2) by (rule get_next_process_frame)
  have sq: "sound_queues s" and wf: "\<And>i. i < length (processes s) \<Longrightarrow> well_formed (processes s ! i)"
    using inv by (simp_all add: run_inv_def)
  note sel = get_next_process_sound [OF sq dispatch(2)]
  have n: "n < length (processes s)" "\<not> is_terminated (processes s ! n)"
    using sel(1) by simp_all
  have c: "?f (processes ?c ! i) = ?f (processes s ! i)" if "i < length (processes s)" for i
    using context_switch_nth [of ?f i s1 ?r n] that by (simp add: s1)
  have cn: "well_formed (processes ?c ! n)" "\<not> is_terminated (processes ?c ! n)"
    using c [OF n(1)] wf [OF n(1)] n(2) by (auto simp: well_formed_def is_terminated_def)
  note ex = execute_times [OF cn, of "current_time ?c" "time_slice ?c"]
  have s': "?f (processes s' ! i) = (if i = n then ?f ?p' else ?f (processes s ! i))"
    if "i < length (processes s)" for i
    using dispatch_nth [of ?f i ?c ?r n] c [OF that] that by (simp add: dispatch(3) s1)
  have len: "length (processes s') = length (processes s)"
    by (simp add: dispatch(3) s1)
  have keeps: "keeps_times (processes s ! i) (processes s' ! i)"
    and wf': "well_formed (processes s' ! i)" if "i < length (processes s)" for i
  proof -
    show "keeps_times (processes s ! i) (processes s' ! i)"
      using s' [OF that] c [OF n(1)] ex(2)
      by (cases "i = n") (auto simp: keeps_times_def)
    show "well_formed (processes s' ! i)"
      using s' [OF that] ex(1) wf [OF that]
      by (cases "i = n") (auto simp: well_formed_def)
  qed
  have q: "queued s' = queued s1"
    by (rule queued_frame) (simp_all add: dispatch(3))
  have "sound_queues s'"
    unfolding sound_queues_def q len
  proof (intro conjI ballI)
    show "distinct (queued s1)" by (rule sel(3))
  next
    fix i assume i: "i \<in> set (queued s1)"
    with sel(4) show "i < length (processes s)" by simp
    from i sel(2) have "i \<noteq> n" by auto
    moreover from i sel(4) have "i < length (processes s)" "\<not> is_terminated (processes s ! i)"
      by simp_all
    ultimately show "\<not> is_terminated (processes s' ! i)"
      using s' [of i] by (simp add: is_terminated_def)
  qed
  with wf' len keeps show ?thesis by (simp add: run_inv_def)
qed

lemma run_inv_loop_body: "run_inv s \<Longrightarrow> loop_body s = Inr (Some s') \<Longrightarrow> run_inv s'"
  by (simp add: run_inv_step)

lemma iterations_keep_times:
  assumes "iterations k u s1 = Some s2" and "run_inv s1"
  shows "length (processes s2) = length (processes s1)
         \<and> (\<forall>i < length (processes s1). keeps_times (processes s1 ! i) (processes s2 ! i))"
  using assms
proof (induction k arbitrary: s1)
  case 0
  then show ?case by (simp add: iterations.simps)
next
  case (Suc k)
  then obtain s' where step: "loop_body s1 = Inr (Some s')" and rest: "iterations k u s' = Some s2"
    by (auto simp: iterations.simps split: if_splits sum.splits option.splits)
  note st = run_inv_step [OF Suc.prems(2) step]
  from st have "run_inv s'" by simp
  from Suc.IH [OF rest this] st show ?case
    by (auto intro: keeps_times_trans)
qed

section \<open>The timeline of the log\<close>

lemma contiguous_snoc:
  "contiguous t (es @ [(x, a, b)]) t' \<longleftrightarrow> contiguous t es a \<and> a \<le> b \<and> t' = b"
  by (induction t es t' rule: contiguous.induct) auto

lemma contiguous_le: "contiguous t es t' \<Longrightarrow> t \<le> t'"
  by (induction t es t' rule: contiguous.induct) auto

lemma contiguous_union: "contiguous t es t' \<Longrightarrow> (\<Union>e \<in> set es. entry_span e) = {t ..< t'}"
proof (induction t es t' rule: contiguous.induct)
  case (1 t t')
  then show ?case by simp
next
  case (2 t x a b es t')
  from "2.prems" have c: "contiguous b es t'" and ab: "a = t" "a \<le> b" by simp_all
  from c have "b \<le> t'" by (rule contiguous_le)
  with "2.IH" [OF c] ab show ?case
    by (auto simp: entry_span_def)
qed

lemma get_next_process_slice:
  assumes "get_next_process s r = Inr (x, s1)"
  shows "map time_quantum (queues s1) = map time_quantum (queues s)"
    and "time_slice s1 = time_slice s \<or> Some (time_slice s1) \<in> set (map time_quantum (queues s))"
proof -
  have "map time_quantum (queues s1) = map time_quantum (queues s)
      \<and> (time_slice s1 = time_slice s \<or> Some (time_slice s1) \<in> set (map time_quantum (queues s)))"
  proof (cases "policy s = MultilevelQueueScheduler")
    case False
    with assms show ?thesis
      by (cases "policy s")
         (auto simp: get_next_process_def map_sum_Inr_iff rr_get_next_process_def
            split: list.splits)
  next
    case True
    with assms obtain qs1 qs2 where
      enq: "mlq_enqueue s (queues s) r = Inr qs1"
      and req: "mlq_requeue_current s qs1 r = Inr qs2"
      by (auto simp: get_next_process_def mlq_get_next_process_def split: sum.splits)
    have q2: "map time_quantum qs2 = map time_quantum (queues s)"
      using mlq_enqueue_sound(3) [OF enq] mlq_requeue_current_sound(3) [OF req] by simp
    show ?thesis
    proof (cases "mlq_select qs2")
      case (Inl e)
      with assms enq req True show ?thesis
        by (simp add: get_next_process_def mlq_get_next_process_def)
    next
      case (Inr y)
      show ?thesis
      proof (cases y)
        case None
        with Inr assms enq req True q2 show ?thesis
          by (auto simp: get_next_process_def mlq_get_next_process_def
              split: if_splits sum.splits)
      next
        case (Some t)
        obtain p qs3 ts where t: "t = (p, qs3, ts)" by (cases t)
        with Some Inr assms enq req True
        have s1: "queues s1 = qs3"
          "time_slice s1 = (case ts of None \<Rightarrow> time_slice s | Some tq \<Rightarrow> tq)"
          by (auto simp: get_next_process_def mlq_get_next_process_def)
        from mlq_select_sound [of qs2 p qs3 ts] Inr Some t
        have "map time_quantum qs3 = map time_quantum qs2"
          "\<forall>tq. ts = Some tq \<longrightarrow> Some tq \<in> set (map time_quantum qs2)"
          by simp_all
        with s1 q2 show ?thesis by (cases ts) auto
      qed
    qed
  qed
  then show "map time_quantum (queues s1) = map time_quantum (queues s)"
    and "time_slice s1 = time_slice s \<or> Some (time_slice s1) \<in> set (map time_quantum (queues s))"
    by simp_all
qed

lemma context_switch_timeline:
  "contiguous t0 (execution_log s) (current_time s) \<Longrightarrow>
   contiguous t0 (execution_log (context_switch s r n)) (current_time (context_switch s r n))"
  by (simp add: context_switch_def contiguous_snoc)

lemma dispatch_timeline:
  assumes "contiguous t0 (execution_log s) (current_time s)"
    and "0 \<le> time_slice s" and "0 \<le> remaining_time (processes s ! n)"
  shows "contiguous t0 (execution_log (dispatch s r n)) (current_time (dispatch s r n))"
  using assms
  by (simp add: dispatch_def Let_def split_beta contiguous_snoc fst_execute)

lemma timing_inv_reset:
  assumes "0 \<le> time_slice s" and "\<forall>p \<in> set (processes s). 0 \<le> burst_time p"
    and "\<forall>q \<in> set (queues s). \<forall>tq. time_quantum q = Some tq \<longrightarrow> 0 \<le> tq"
  shows "timing_inv (reset s)"
  using assms
  by (cases "policy s")
     (auto simp: timing_inv_def reset_def Let_def reset_process_def comp_def)

lemma timing_inv_step:
  assumes inv: "run_inv s" and tim: "timing_inv s" and step: "loop_body s = Inr (Some s')"
  shows "timing_inv s'"
  using step
proof (cases rule: loop_body_cases)
  case (idle t)
  with tim show ?thesis
    by (simp add: timing_inv_def contiguous_snoc)
next
  case (dispatch n s1)
  let ?r = "ready_processes_of s"
  let ?c = "context_switch s1 ?r n"
  have fr: "processes s1 = processes s" "current_time s1 = current_time s"
    "execution_log s1 = execution_log s"
    using dispatch(2) by (rule get_next_process_frame)+
  note sl = get_next_process_slice [OF dispatch(2)]
  have sq: "sound_queues s" using inv by (simp add: run_inv_def)
  have n: "n < length (processes s)"
    using get_next_process_sound(1) [OF sq dispatch(2)] by simp
  have quanta: "\<forall>tq. Some tq \<in> set (map time_quantum (queues s1)) \<longrightarrow> 0 \<le> tq"
    using tim sl(1) by (simp add: timing_inv_def)
  have slice: "0 \<le> time_slice s1"
    using tim sl(2) by (auto simp: timing_inv_def)
  have rem_c: "0 \<le> remaining_time (processes ?c ! i)" if "i < length (processes s)" for i
    using context_switch_nth [of remaining_time i s1 ?r n] that tim
    by (simp add: fr timing_inv_def)
  have log_c: "contiguous 0 (execution_log ?c) (current_time ?c)"
    using tim by (intro context_switch_timeline) (simp add: fr timing_inv_def)
  have "contiguous 0 (execution_log s') (current_time s')"
    unfolding dispatch(3) using log_c slice rem_c [OF n]
    by (intro dispatch_timeline) simp_all
  moreover have "0 \<le> remaining_time (processes s' ! i)" if "i < length (processes s)" for i
    using dispatch_nth [of remaining_time i ?c ?r n] that rem_c [OF that] rem_c [OF n]
    by (auto simp: dispatch(3) fr remaining_time_execute)
  ultimately show ?thesis
    using slice quanta by (simp add: timing_inv_def dispatch(3) fr)
qed

section \<open>The claims\<close>

text \<open>
  C1.  Claim: for every completed process, waiting time plus the sum of the execution
  intervals equals the turnaround time.  The code does not satisfy it: \<open>execute\<close> moves a
  process from NEW through READY straight to RUNNING and nothing moves it back, so the
  guard of \<open>wait\<close> never holds and no waiting time is ever accrued.  In the FCFS run of
  the example scenario P2 completes with waiting time 0 and 3 ticks of execution, while
  its turnaround time is 7.
\<close>

theorem C1_waiting_identity_fails_on_example:
  "run 10 None fcfs_example = Some (Inr fcfs_final)
   \<and> completed_processes fcfs_final = [0, 1, 2]
   \<and> waiting_time (processes fcfs_final ! 1) + execution_total (processes fcfs_final ! 1) = 3
   \<and> get_turnaround_time (processes fcfs_final ! 1) = Some 7"
  by (simp add: fcfs_example_run)
     (simp add: fcfs_final_def execution_total_def get_turnaround_time_def)

text \<open>
  C2.  Claim: FCFS on the example scenario logs (P1,0,5), (P2,5,8), (P3,8,9).  The engine
  dispatches one time slice per pass through its loop and the slice of the FCFS
  scheduler is 1, so the log has one entry per tick.
\<close>

theorem C2_counterexample:
  "run 10 None fcfs_example = Some (Inr fcfs_final)
   \<and> execution_log fcfs_final \<noteq> [(Pid 1, 0, 5), (Pid 2, 5, 8), (Pid 3, 8, 9)]"
  by (simp add: fcfs_example_run) (simp add: fcfs_final_def)

text \<open>
  C2, as amended: with fuel for ten or more passes the FCFS run of the example scenario
  ends with the tick-by-tick log below, in which P1 occupies [0,5), P2 [5,8) and P3 [8,9);
  the processes complete in the order P1, P2, P3, at times 5, 8 and 9.
\<close>

theorem C2_fcfs_example_log:
  "run (10 + n) None fcfs_example = Some (Inr fcfs_final)
   \<and> execution_log fcfs_final =
       [(Pid 1, 0, 1), (Pid 1, 1, 2), (Pid 1, 2, 3), (Pid 1, 3, 4), (Pid 1, 4, 5),
        (Pid 2, 5, 6), (Pid 2, 6, 7), (Pid 2, 7, 8), (Pid 3, 8, 9)]
   \<and> completed_processes fcfs_final = [0, 1, 2]
   \<and> map finish_time (processes fcfs_final) = [Some 5, Some 8, Some 9]"
proof -
  have "run_loop (10 + n) None (reset fcfs_example) = Some (Inr fcfs_final)"
    using fcfs_example_run by (intro run_loop_more_fuel) (simp add: run_def)
  then show ?thesis
    by (simp add: run_def) (simp add: fcfs_final_def)
qed

text \<open>
  C3.  Let no time slice be negative (the scheduler's own and the quanta of the tiers) and
  no burst time be negative.  Then at every point of every run, under every policy, the
  log is a contiguous timeline from 0 to the clock: the first entry starts at 0, no entry
  ends before it starts, each entry starts where the one before it ends, the last ends at
  the current clock value, and the spans of the entries cover exactly [0, clock).
  A point of a run is the state after some number of passes through the loop; the state
  that \<open>run\<close> returns is one (\<open>run_result_is_reached\<close>), also when the time budget
  cuts the run short.
\<close>

theorem C3_log_is_contiguous_timeline:
  assumes "iterations k until_time (reset s0) = Some s"
    and "0 \<le> time_slice s0"
    and "\<forall>q \<in> set (queues s0). \<forall>tq. time_quantum q = Some tq \<longrightarrow> 0 \<le> tq"
    and "\<forall>p \<in> set (processes s0). 0 \<le> burst_time p"
  shows "contiguous 0 (execution_log s) (current_time s)
       \<and> (\<Union>e \<in> set (execution_log s). entry_span e) = {0 ..< current_time s}"
proof -
  have "run_inv s \<and> timing_inv s"
    using assms(1)
  proof (rule iterations_invariant [where P = "\<lambda>s. run_inv s \<and> timing_inv s"])
    show "run_inv (reset s0) \<and> timing_inv (reset s0)"
      using assms(2-4) by (simp add: run_inv_reset timing_inv_reset)
  next
    fix s s' assume "run_inv s \<and> timing_inv s" "loop_body s = Inr (Some s')"
    then show "run_inv s' \<and> timing_inv s'"
      by (auto intro: run_inv_loop_body timing_inv_step)
  qed
  then have "contiguous 0 (execution_log s) (current_time s)"
    by (simp add: timing_inv_def)
  then show ?thesis by (simp add: contiguous_union)
qed

text \<open>C3, at a concrete input: the nine passes of the FCFS run of the example scenario.\<close>

theorem C3_witness:
  "iterations 9 None (reset fcfs_example) = Some fcfs_final
   \<and> 0 \<le> time_slice fcfs_example
   \<and> queues fcfs_example = []
   \<and> map burst_time (processes fcfs_example) = [5, 3, 1]
   \<and> contiguous 0 (execution_log fcfs_final) (current_time fcfs_final)
   \<and> (\<Union>e \<in> set (execution_log fcfs_final). entry_span e) = {0 ..< 9}"
proof -
  have h1: "iterations 9 None (reset fcfs_example) = Some fcfs_final"
    by (rule fcfs_example_passes)
  have h2: "0 \<le> time_slice fcfs_example"
    by (simp add: fcfs_example_def init_defs)
  have h3: "\<forall>q \<in> set (queues fcfs_example). \<forall>tq. time_quantum q = Some tq \<longrightarrow> 0 \<le> tq"
    by (simp add: fcfs_example_def init_defs)
  have h4: "\<forall>p \<in> set (processes fcfs_example). 0 \<le> burst_time p"
    by (simp add: fcfs_example_def init_defs example_workload_def)
  have h5: "queues fcfs_example = []" "map burst_time (processes fcfs_example) = [5, 3, 1]"
    by (simp_all add: fcfs_example_def init_defs example_workload_def)
  have "current_time fcfs_final = 9"
    by (simp add: fcfs_final_def)
  with C3_log_is_contiguous_timeline [OF h1 h2 h3 h4] h1 h2 h5 show ?thesis
    by simp
qed

text \<open>
  C4.  Claim: a process taken from the FCFS tier of the multilevel queue is granted its
  whole remaining burst.  The FCFS branch of the selection leaves \<open>time_slice\<close> as it
  is, so the process runs for whatever slice was last set: here 1 tick of a remaining
  burst of 2, after which the other process of the same tier is dispatched and the two
  alternate.
\<close>

theorem C4_fcfs_tier_slice_on_example:
  "map_sum id (\<lambda>(p, s'). (p, time_slice s')) (mlq_get_next_process (reset batch_example) [0])
     = Inr (Some 0, 1)
   \<and> remaining_time (processes (reset batch_example) ! 0) = 2
   \<and> get_queue_for_process (reset batch_example) (processes (reset batch_example) ! 0) = 2
   \<and> run 5 None batch_example = Some (Inr batch_final)
   \<and> execution_log batch_final = [(Pid 1, 0, 1), (Pid 2, 1, 2), (Pid 1, 2, 3), (Pid 2, 3, 4)]"
  apply (simp add: batch_example_run)
  apply (simp add: batch_final_def)
  apply (simp add: batch_example_def init_defs)
  apply (simp add: policy_defs cong: let_weak_cong)
  done

text \<open>
  C5.  Claim: the priority scheduler breaks a tie on priority and arrival time by the
  lower pid.  The key of the selection is (priority, - arrival\_time, pid) under
  \<^verbatim>\<open>max\<close>, so the higher pid wins: of two processes with priority 5 and arrival 0,
  the one with pid 2 is selected.
\<close>

theorem C5_tie_selects_higher_pid:
  "ready_processes_of tie_example = [0, 1]
   \<and> current_process tie_example = None
   \<and> map priority (processes tie_example) = [5, 5]
   \<and> map arrival_time (processes tie_example) = [0, 0]
   \<and> map pid (processes tie_example) = [1, 2]
   \<and> priority_get_next_process tie_example [0, 1] = Inr 1"
  apply (simp add: tie_example_def init_defs)
  apply (simp add: ready_defs policy_defs)
  done

text \<open>
  C6.  Claim: new arrivals join the round-robin queue in arrival order.  The code appends
  them in the order of the ready list, which is the order of the workload, and never
  sorts them; only the fallback of the same function, which rebuilds an empty queue,
  sorts by (arrival\_time, pid).  For the workload A (arrival 2), B (arrival 0),
  C (arrival 1) with quantum 4: after B has run from 0 to 4, A and C are both new, the
  queue becomes A, C, where the fallback order would be C, A, and A is dispatched before
  C although C arrived first.
\<close>

theorem C6_new_arrivals_queued_out_of_arrival_order:
  "iterations 1 None (reset unsorted_example) = Some unsorted_after_1
   \<and> ready_processes_of unsorted_after_1 = [0, 2]
   \<and> ready_queue unsorted_after_1 = []
   \<and> current_process unsorted_after_1 = None
   \<and> map arrival_time (processes unsorted_after_1) = [2, 0, 1]
   \<and> rr_update_queue unsorted_after_1 [0, 2] = [0, 2]
   \<and> sort_key (\<lambda>i. (arrival_time (processes unsorted_after_1 ! i),
                      pid (processes unsorted_after_1 ! i))) [0, 2] = [2, 0]
   \<and> iterations 2 None unsorted_after_1 = Some unsorted_final
   \<and> execution_log unsorted_final = [(Pid 2, 0, 4), (Pid 1, 4, 5), (Pid 3, 5, 6)]"
  apply (intro conjI)
          apply (rule unsorted_example_first_pass)
         apply (simp add: unsorted_after_1_def ready_defs)
        apply (simp add: unsorted_after_1_def)
       apply (simp add: unsorted_after_1_def)
      apply (simp add: unsorted_after_1_def)
     apply (simp add: unsorted_after_1_def policy_defs)
    apply (simp add: unsorted_after_1_def)
   apply (rule unsorted_example_later_passes)
  apply (simp add: unsorted_final_def)
  done

text \<open>
  C7.  Take any point of a run and any later point of the same run.  A start time, a
  response time or a finish time that is set at the first point has the same value at the
  second.
\<close>

theorem C7_times_are_write_once:
  assumes "iterations j until_time (reset s0) = Some s1"
    and "iterations k until_time s1 = Some s2"
    and "i < length (processes s1)"
  shows "(start_time (processes s1 ! i) \<noteq> None
            \<longrightarrow> start_time (processes s2 ! i) = start_time (processes s1 ! i))
       \<and> (response_time (processes s1 ! i) \<noteq> None
            \<longrightarrow> response_time (processes s2 ! i) = response_time (processes s1 ! i))
       \<and> (finish_time (processes s1 ! i) \<noteq> None
            \<longrightarrow> finish_time (processes s2 ! i) = finish_time (processes s1 ! i))"
proof -
  have "run_inv s1"
    using assms(1) run_inv_reset run_inv_loop_body
    by (rule iterations_invariant [where P = run_inv])
  with assms(2) have "keeps_times (processes s1 ! i) (processes s2 ! i)"
    using assms(3) by (auto dest: iterations_keep_times)
  then show ?thesis by (simp add: keeps_times_def)
qed

text \<open>C7, at a concrete input: process B of the unsorted workload, whose three times are set after the first pass and unchanged two passes later.\<close>

theorem C7_witness:
  "iterations 1 None (reset unsorted_example) = Some unsorted_after_1
   \<and> iterations 2 None unsorted_after_1 = Some unsorted_final
   \<and> 1 < length (processes unsorted_after_1)
   \<and> start_time (processes unsorted_after_1 ! 1) \<noteq> None
   \<and> response_time (processes unsorted_after_1 ! 1) \<noteq> None
   \<and> finish_time (processes unsorted_after_1 ! 1) \<noteq> None
   \<and> start_time (processes unsorted_final ! 1) = start_time (processes unsorted_after_1 ! 1)
   \<and> response_time (processes unsorted_final ! 1) = response_time (processes unsorted_after_1 ! 1)
   \<and> finish_time (processes unsorted_final ! 1) = finish_time (processes unsorted_after_1 ! 1)"
proof -
  have h3: "1 < length (processes unsorted_after_1)"
    by (simp add: unsorted_after_1_def)
  have set: "start_time (processes unsorted_after_1 ! 1) \<noteq> None"
    "response_time (processes unsorted_after_1 ! 1) \<noteq> None"
    "finish_time (processes unsorted_after_1 ! 1) \<noteq> None"
    by (simp_all add: unsorted_after_1_def)
  from C7_times_are_write_once
    [OF unsorted_example_first_pass unsorted_example_later_passes h3] set
    unsorted_example_first_pass unsorted_example_later_passes h3
  show ?thesis by blast
qed

text \<open>
  C8.  Claim: two runs of the same policy on the same workload give the same log.
  \<open>reset\<close> does not restore \<open>time_slice\<close>, which the multilevel queue overwrites during a
  run.  A second \<open>run\<close> of the same scheduler object therefore starts from a state that
  differs from the first in \<open>time_slice\<close> alone, and its log differs.
\<close>

theorem C8_second_run_differs_on_example:
  "run 4 None mixed_example = Some (Inr mixed_first_run)
   \<and> run 4 None mixed_first_run = Some (Inr mixed_second_run)
   \<and> reset mixed_first_run = (reset mixed_example)\<lparr>time_slice := 2\<rparr>
   \<and> execution_log mixed_first_run = [(Pid 1, 0, 1), (Pid 2, 1, 3), (Pid 1, 3, 5)]
   \<and> execution_log mixed_second_run = [(Pid 1, 0, 2), (Pid 2, 2, 4), (Pid 1, 4, 5)]"
  apply (simp add: mixed_example_first_run mixed_example_second_run)
  apply (simp add: mixed_first_run_def mixed_second_run_def mixed_example_def three_tiers_def
      init_defs)
  done

text \<open>
  C9.  A run with no processes makes no pass through the loop and returns at once with
  an empty completed list and an empty log, whatever the policy, the time budget and the
  state left by earlier runs; and the metrics of an empty completed list are all zero.
\<close>

theorem C9_empty_workload:
  "run (Suc n) until_time (s\<lparr>processes := []\<rparr>) = Some (Inr (reset (s\<lparr>processes := []\<rparr>)))
   \<and> iterations (Suc k) until_time (reset (s\<lparr>processes := []\<rparr>)) = None
   \<and> completed_processes (reset (s\<lparr>processes := []\<rparr>)) = []
   \<and> execution_log (reset (s\<lparr>processes := []\<rparr>)) = []
   \<and> calculate_metrics [] total_time nm =
       Inr \<lparr>scheduler_name = nm, avg_waiting_time = 0, avg_turnaround_time = 0,
            avg_response_time = 0, throughput = 0, cpu_utilization = 0\<rparr>"
  by (cases "policy s")
     (simp_all add: run_def run_loop.simps iterations.simps loop_cond_def reset_def
        calculate_metrics_def)

text \<open>
  C10.  \<open>wait\<close> leaves a process in state NEW unchanged; hence in any pass through the loop
  a process that is in state NEW keeps its waiting time, whoever runs, and at every point
  of every run a process that has never been dispatched (state NEW) has waiting time 0.
\<close>

theorem C10_new_process_accrues_no_waiting:
  "(state p = NEW \<longrightarrow> waiting_time (wait p d) = waiting_time p)
   \<and> (loop_body s = Inr (Some s') \<longrightarrow> i < length (processes s)
        \<longrightarrow> state (processes s ! i) = NEW
        \<longrightarrow> waiting_time (processes s' ! i) = waiting_time (processes s ! i))
   \<and> (iterations k until_time (reset s0) = Some s2 \<longrightarrow> j < length (processes s2)
        \<longrightarrow> state (processes s2 ! j) = NEW
        \<longrightarrow> waiting_time (processes s2 ! j) = 0)"
proof (intro conjI impI)
  assume "state p = NEW"
  then show "waiting_time (wait p d) = waiting_time p"
    by (simp add: wait_NEW)
next
  assume "loop_body s = Inr (Some s')" "i < length (processes s)"
    "state (processes s ! i) = NEW"
  then show "waiting_time (processes s' ! i) = waiting_time (processes s ! i)"
    by (rule new_keeps_waiting_time)
next
  assume run: "iterations k until_time (reset s0) = Some s2" and j: "j < length (processes s2)"
  have "\<forall>p \<in> set (processes s2). never_waits p"
    using run never_waits_reset never_waits_loop_body
    by (rule iterations_invariant [where P = "\<lambda>s. \<forall>p \<in> set (processes s). never_waits p"])
  with j show "waiting_time (processes s2 ! j) = 0"
    by (simp add: never_waits_def)
qed

text \<open>C10, at a concrete input: process P2 of the example scenario during and after the first pass of the FCFS run.\<close>

theorem C10_witness:
  "state (Process 2 ''P2'' 1 3 0) = NEW
   \<and> waiting_time (wait (Process 2 ''P2'' 1 3 0) 4) = waiting_time (Process 2 ''P2'' 1 3 0)
   \<and> loop_body (reset fcfs_example) = Inr (Some fcfs_after_1)
   \<and> 1 < length (processes (reset fcfs_example))
   \<and> state (processes (reset fcfs_example) ! 1) = NEW
   \<and> waiting_time (processes fcfs_after_1 ! 1) = waiting_time (processes (reset fcfs_example) ! 1)
   \<and> iterations 1 None (reset fcfs_example) = Some fcfs_after_1
   \<and> 1 < length (processes fcfs_after_1)
   \<and> state (processes fcfs_after_1 ! 1) = NEW
   \<and> waiting_time (processes fcfs_after_1 ! 1) = 0"
proof -
  have a: "state (Process 2 ''P2'' 1 3 0) = NEW"
    by (simp add: Process_def)
  have b: "loop_body (reset fcfs_example) = Inr (Some fcfs_after_1)"
    using fcfs_example_first_pass by (rule iterations_one)
  have c: "1 < length (processes (reset fcfs_example))"
    "state (processes (reset fcfs_example) ! 1) = NEW"
    by (simp_all add: fcfs_example_def init_defs example_workload_def)
  have d: "1 < length (processes fcfs_after_1)" "state (processes fcfs_after_1 ! 1) = NEW"
    by (simp_all add: fcfs_after_1_def)
  from C10_new_process_accrues_no_waiting
    [where p = "Process 2 ''P2'' 1 3 0" and d = 4 and s = "reset fcfs_example"
       and s' = fcfs_after_1 and i = 1 and k = 1 and until_time = None and ?s0.0 = fcfs_example
       and ?s2.0 = fcfs_after_1 and j = 1]
    a b c d fcfs_example_first_pass
  show ?thesis by blast
qed

end
